theory Spec2Isabelle
  imports Main "HOL-Library.Word"
begin

section \<open>Byte slices\<close>

text \<open>
  Keys and values of the DocDB layer are byte strings (\<open>rocksdb::Slice\<close>, \<open>KeyBytes\<close>).
  A byte is an unsigned 8-bit word, a slice a list of bytes.
\<close>

type_synonym byte = "8 word"
type_synonym slice = "byte list"

text \<open>
  Modelled from the spec: \<open>Slice::compare\<close> (yb/util/slice.h is not part of the sources at
  hand). The spec orders the keyspace lexicographically by unsigned bytes; the bytewise
  comparator of \<open>comparator.cc\<close> delegates to it (\<open>return a.compare(b)\<close>). The result
  is negative, zero or positive as for \<open>memcmp\<close> followed by the comparison of lengths: a
  proper prefix sorts before its extensions.
\<close>

fun compare :: "slice \<Rightarrow> slice \<Rightarrow> int" where
  "compare [] [] = 0"
| "compare [] (y # ys) = -1"
| "compare (x # xs) [] = 1"
| "compare (x # xs) (y # ys) =
     (if x < y then -1 else if y < x then 1 else compare xs ys)"

text \<open>Modelled from the spec: \<open>Slice::starts_with\<close>, the prefix test on byte strings.\<close>

definition starts_with :: "slice \<Rightarrow> slice \<Rightarrow> bool" where
  "starts_with s p = (length p \<le> length s \<and> take (length p) s = p)"


section \<open>Status\<close>

text \<open>
  The statuses that the functions below return (\<open>yb::Status\<close>): success, and the two
  failures of section 7 of the spec that they can produce.
\<close>

datatype Status = OK | NotFound | Corruption


section \<open>The ordered key-value engine's iterator\<close>

text \<open>
  Modelled from the spec: \<open>rocksdb::Iterator\<close> (section 6 of the spec: \<open>SeekToFirst()\<close>,
  \<open>Seek(key)\<close>, \<open>Next()\<close>, \<open>Valid()\<close>, \<open>key()\<close>, \<open>value()\<close> over an ordered
  keyspace). The iterator is a snapshot of the keyspace, the list \<open>entries\<close> of key-value
  pairs in engine order, and a position \<open>pos\<close> in it; it is valid while the position is
  inside the list. \<open>calls\<close> records the native calls the engine has received, in order,
  so that statements about which engine operation a function issues can be made.
\<close>

datatype engine_call = CallSeekToFirst | CallSeek slice | CallNext

record rocksdb_iterator =
  entries :: "(slice \<times> slice) list"
  pos :: nat
  calls :: "engine_call list"

text \<open>
  Modelled from the spec: \<open>Valid()\<close>, \<open>key()\<close> and \<open>value()\<close> of the iterator. The
  last two are only called on a valid iterator.
\<close>

definition Valid :: "rocksdb_iterator \<Rightarrow> bool" where
  "Valid it = (pos it < length (entries it))"

definition key :: "rocksdb_iterator \<Rightarrow> slice" where
  "key it = fst (entries it ! pos it)"

definition iter_value :: "rocksdb_iterator \<Rightarrow> slice" where
  "iter_value it = snd (entries it ! pos it)"

text \<open>
  The engine keeps its keys in strictly ascending bytewise order (keys are distinct).
\<close>

definition keyspace_sorted :: "(slice \<times> slice) list \<Rightarrow> bool" where
  "keyspace_sorted es = sorted_wrt (\<lambda>a b. compare (fst a) (fst b) < 0) es"

text \<open>
  Modelled from the spec: \<open>Seek(key)\<close>, \<open>SeekToFirst()\<close> and \<open>Next()\<close> of the iterator.
  A native seek positions the iterator at the first entry whose key is at or after the
  target, and leaves it invalid when there is none; \<open>lower_bound\<close> is the index of that
  entry.
\<close>

definition lower_bound :: "(slice \<times> slice) list \<Rightarrow> slice \<Rightarrow> nat" where
  "lower_bound es k = length (takeWhile (\<lambda>e. compare (fst e) k < 0) es)"

definition SeekToFirst :: "rocksdb_iterator \<Rightarrow> rocksdb_iterator" where
  "SeekToFirst it = it\<lparr>pos := 0, calls := calls it @ [CallSeekToFirst]\<rparr>"

definition Seek :: "slice \<Rightarrow> rocksdb_iterator \<Rightarrow> rocksdb_iterator" where
  "Seek k it = it\<lparr>pos := lower_bound (entries it) k, calls := calls it @ [CallSeek k]\<rparr>"

text \<open>\<open>Next()\<close> is only called on a valid iterator; from the last entry it becomes invalid.\<close>

definition Next :: "rocksdb_iterator \<Rightarrow> rocksdb_iterator" where
  "Next it = it\<lparr>pos := pos it + 1, calls := calls it @ [CallNext]\<rparr>"


section \<open>docdb\_rocksdb\_util.cc: PerformRocksDBSeek and SeekForward\<close>

text \<open>
  The \<open>for\<close> loop of \<open>PerformRocksDBSeek\<close>:
  \<^verbatim>\<open>
    for (int nexts = 0; nexts <= FLAGS_max_nexts_to_avoid_seek; nexts++) {
      if (!iter->Valid() || iter->key().compare(seek_key) >= 0) break;
      if (nexts < FLAGS_max_nexts_to_avoid_seek) iter->Next();
      else iter->Seek(seek_key);
    }
  \<close>
  The flag \<open>max_nexts_to_avoid_seek\<close> (an \<open>int32\<close>) is the parameter \<open>max_nexts\<close>;
  the counter stays at most one above it. The default of the flag is 8
  (\<open>DEFINE_int32(max_nexts_to_avoid_seek, 8, ...)\<close>).
\<close>

definition default_max_nexts_to_avoid_seek :: int where
  "default_max_nexts_to_avoid_seek = 8"

function seek_loop :: "int \<Rightarrow> slice \<Rightarrow> int \<Rightarrow> rocksdb_iterator \<Rightarrow> rocksdb_iterator" where
  "seek_loop max_nexts seek_key nexts it =
     (if nexts \<le> max_nexts then
        (if \<not> Valid it \<or> compare (key it) seek_key \<ge> 0 then it
         else if nexts < max_nexts then seek_loop max_nexts seek_key (nexts + 1) (Next it)
         else seek_loop max_nexts seek_key (nexts + 1) (Seek seek_key it))
      else it)"
  by pat_completeness auto
termination
  by (relation "measure (\<lambda>(m, k, n, it). nat (m + 1 - n))") auto

declare seek_loop.simps [simp del]

text \<open>
  \<open>PerformRocksDBSeek\<close>, the body that follows the debug-only validation of the seek key
  (the validation is \<open>seek_key_dcheck\<close> below; tracing and logging are left out).
\<close>

definition PerformRocksDBSeek :: "int \<Rightarrow> rocksdb_iterator \<Rightarrow> slice \<Rightarrow> rocksdb_iterator" where
  "PerformRocksDBSeek max_nexts it seek_key =
     (if length seek_key = 0 then SeekToFirst it
      else if \<not> Valid it \<or> compare (key it) seek_key > 0 then Seek seek_key it
      else seek_loop max_nexts seek_key 0 it)"

text \<open>
  \<open>SeekForward\<close>. The macro \<open>ROCKSDB_SEEK(iter, key)\<close> is declared in a header that is not
  part of the sources at hand; its two arguments and the \<open>file_name\<close>, \<open>line\<close> parameters
  of \<open>PerformRocksDBSeek\<close> show it to be the call \<open>PerformRocksDBSeek(iter, key, __FILE__,
  __LINE__)\<close>.
\<close>

definition SeekForward :: "int \<Rightarrow> slice \<Rightarrow> rocksdb_iterator \<Rightarrow> rocksdb_iterator" where
  "SeekForward max_nexts target it =
     (if \<not> Valid it \<or> compare (key it) target \<ge> 0 then it
      else PerformRocksDBSeek max_nexts it target)"

text \<open>
  The three-branch algorithm as the spec words it (section 4.3), with the test of the
  second branch as the code has it. \<open>step_or_seek\<close> is the third branch with the step
  budget counted down: at most \<open>budget\<close> single steps, each taken only while the iterator
  is valid and before the target, then one native seek if the target is still not reached.
\<close>

fun step_or_seek :: "nat \<Rightarrow> slice \<Rightarrow> rocksdb_iterator \<Rightarrow> rocksdb_iterator" where
  "step_or_seek 0 seek_key it =
     (if \<not> Valid it \<or> compare (key it) seek_key \<ge> 0 then it else Seek seek_key it)"
| "step_or_seek (Suc budget) seek_key it =
     (if \<not> Valid it \<or> compare (key it) seek_key \<ge> 0 then it
      else step_or_seek budget seek_key (Next it))"

definition three_branch_seek :: "nat \<Rightarrow> rocksdb_iterator \<Rightarrow> slice \<Rightarrow> rocksdb_iterator" where
  "three_branch_seek max_steps it seek_key =
     (if seek_key = [] then SeekToFirst it
      else if \<not> Valid it \<or> compare (key it) seek_key > 0 then Seek seek_key it
      else step_or_seek max_steps seek_key it)"


section \<open>DocHybridTime and its codec\<close>

text \<open>
  A \<open>HybridTime\<close> is an unsigned 64-bit value, a write id an unsigned 32-bit value; a
  \<open>DocHybridTime\<close> is the pair of the two (section 3 of the spec).
\<close>

type_synonym HybridTime = "64 word"
type_synonym IntraTxnWriteId = "32 word"

record DocHybridTime =
  hybrid_time :: HybridTime
  write_id :: IntraTxnWriteId

text \<open>
  Modelled from the spec: the two sentinels of section 3, \<open>kMaxWriteId\<close> (the maximum
  write id) and \<open>DocHybridTime::kMin\<close> (the smallest possible timestamp). Their
  declarations are not part of the sources at hand.
\<close>

definition kMaxWriteId :: IntraTxnWriteId where
  "kMaxWriteId = 0xFFFFFFFF"

definition kMin :: DocHybridTime where
  "kMin = \<lparr>hybrid_time = 0, write_id = 0\<rparr>"

text \<open>The total order of the spec: by time first, by write id second.\<close>

definition dht_less :: "DocHybridTime \<Rightarrow> DocHybridTime \<Rightarrow> bool" where
  "dht_less a b = (hybrid_time a < hybrid_time b
                   \<or> (hybrid_time a = hybrid_time b \<and> write_id a < write_id b))"

text \<open>
  Big-endian bytes, for the codecs below: \<open>be_bytes n x\<close> are the \<open>n\<close> low bytes of
  \<open>x\<close>, most significant first, and \<open>be_value\<close> reads such bytes back.
\<close>

fun be_bytes :: "nat \<Rightarrow> nat \<Rightarrow> slice" where
  "be_bytes 0 x = []"
| "be_bytes (Suc n) x = of_nat (x div 256 ^ n mod 256) # be_bytes n x"

fun be_value :: "slice \<Rightarrow> nat" where
  "be_value [] = 0"
| "be_value (b # bs) = unat b * 256 ^ length bs + be_value bs"

text \<open>
  Modelled from the spec: the DocHybridTime codec (\<open>DocHybridTime::Encode\<close> and the
  decoding behind \<open>DecodeFromEnd\<close> are not part of the sources at hand). Section 3 and 4.1
  of the spec ask for a fixed-width, fixed-layout encoding by a reversible transform that
  reverses the order, so that larger timestamps sort as smaller byte strings. The model
  writes the complement of the time in 8 bytes and the complement of the write id in 4
  bytes, both big-endian.
\<close>

definition kBytesPerDocHybridTime :: nat where
  "kBytesPerDocHybridTime = 12"

definition EncodeDocHybridTime :: "DocHybridTime \<Rightarrow> slice" where
  "EncodeDocHybridTime d =
     be_bytes 8 (2 ^ 64 - 1 - unat (hybrid_time d)) @ be_bytes 4 (2 ^ 32 - 1 - unat (write_id d))"

definition DecodeDocHybridTime :: "slice \<Rightarrow> DocHybridTime" where
  "DecodeDocHybridTime bs =
     \<lparr>hybrid_time = of_nat (2 ^ 64 - 1 - be_value (take 8 bs)),
      write_id = of_nat (2 ^ 32 - 1 - be_value (drop 8 bs))\<rparr>"

text \<open>
  Modelled from the spec: \<open>ValueType::kHybridTime\<close>, the one-byte marker that precedes an
  encoded DocHybridTime in a key, and \<open>AppendDocHybridTime\<close>, which appends the marker
  and the encoded timestamp (the \<open>TODO\<close> comment of \<open>SeekToValidKvAtTs\<close> describes it
  so). The enum is not part of the sources at hand; the value is that of \<open>'#'\<close>.
\<close>

definition kHybridTime :: byte where
  "kHybridTime = 35"

definition AppendDocHybridTime :: "DocHybridTime \<Rightarrow> slice \<Rightarrow> slice" where
  "AppendDocHybridTime d key_bytes = key_bytes @ kHybridTime # EncodeDocHybridTime d"

text \<open>
  Modelled from the spec: \<open>DocHybridTime::DecodeFromEnd\<close> (section 4.1), which decodes the
  timestamp that ends a key and fails with \<open>Corruption\<close> when the trailing bytes are too
  short for one.
\<close>

definition DecodeFromEnd :: "slice \<Rightarrow> Status + DocHybridTime" where
  "DecodeFromEnd s =
     (if length s < kBytesPerDocHybridTime then Inl Corruption
      else Inr (DecodeDocHybridTime (drop (length s - kBytesPerDocHybridTime) s)))"

text \<open>
  Modelled from the spec: \<open>KeyBytes::ReplaceLastHybridTimeForSeek\<close> (section 4.1), which
  rewrites only the trailing timestamp of an encoded key, to the given time with the maximum
  write id, as every seek key carries it.
\<close>

definition ReplaceLastHybridTimeForSeek :: "HybridTime \<Rightarrow> slice \<Rightarrow> Status + slice" where
  "ReplaceLastHybridTimeForSeek ht key_bytes =
     (if length key_bytes < kBytesPerDocHybridTime then Inl Corruption
      else Inr (take (length key_bytes - kBytesPerDocHybridTime) key_bytes
                @ EncodeDocHybridTime \<lparr>hybrid_time = ht, write_id = kMaxWriteId\<rparr>))"


section \<open>SubDocKey\<close>

text \<open>
  Modelled from the spec: \<open>SubDocKey\<close> (section 3), the tuple of a DocKey, sub-path
  components and an optional DocHybridTime. The spec does not fix the byte layout of the
  DocKey and of the sub-path components, so the decoded DocKey and sub-path are a value
  \<open>path\<close> of any type \<open>'p\<close>, and their decoder is a parameter: a \<open>path_decoder\<close> reads
  the DocKey and the sub-path from the front of a key and returns them with the number of
  bytes they take, or fails on malformed input.
\<close>

record 'p SubDocKey =
  path :: 'p
  has_hybrid_time :: bool
  doc_ht :: DocHybridTime

type_synonym 'p path_decoder = "slice \<Rightarrow> ('p \<times> nat) option"

text \<open>
  Modelled from the spec: \<open>SubDocKey::FullyDecodeFrom(bytes, require_hybrid_time)\<close>
  (section 4.2). After the DocKey and the sub-path the key either ends, which is an error when
  a timestamp is required, or continues with the marker and exactly one encoded timestamp;
  any other input is a \<open>Corruption\<close>.
\<close>

definition FullyDecodeFrom ::
  "'p path_decoder \<Rightarrow> slice \<Rightarrow> bool \<Rightarrow> Status + 'p SubDocKey" where
  "FullyDecodeFrom dec s require_hybrid_time =
     (case dec s of
        None \<Rightarrow> Inl Corruption
      | Some (p, n) \<Rightarrow>
          (case drop n s of
             [] \<Rightarrow> if require_hybrid_time then Inl Corruption
                   else Inr \<lparr>path = p, has_hybrid_time = False, doc_ht = kMin\<rparr>
           | b # rest \<Rightarrow>
               if b = kHybridTime \<and> length rest = kBytesPerDocHybridTime
               then Inr \<lparr>path = p, has_hybrid_time = True, doc_ht = DecodeDocHybridTime rest\<rparr>
               else Inl Corruption))"

text \<open>
  Modelled from the spec: \<open>SubDocKey::SetHybridTimeForReadPath\<close>. Step 5 of section 4.3
  fixes what it does to the time reported for the key; the write id is left as it was.
\<close>

definition SetHybridTimeForReadPath :: "HybridTime \<Rightarrow> 'p SubDocKey \<Rightarrow> 'p SubDocKey" where
  "SetHybridTimeForReadPath ht k =
     k\<lparr>has_hybrid_time := True, doc_ht := (doc_ht k)\<lparr>hybrid_time := ht\<rparr>\<rparr>"


text \<open>
  Modelled from the spec: \<open>SubDocKey::Encode(include_hybrid_time)\<close> (section 4.2), not
  part of the sources at hand. The encoded key is the encoded DocKey, then the encoded
  sub-path components in order, then, when asked for and present, the marker and the
  encoded DocHybridTime (sections 2 and 3). The spec does not fix the encoders of the
  DocKey and of a sub-path component (the typed value encoders of its section 2), so they
  are the parameters \<open>enc_doc_key\<close> and \<open>enc_subkey\<close>; here the \<open>path\<close> of a key is
  the pair of its DocKey and the list of its sub-path components.
\<close>

definition Encode ::
  "('d \<Rightarrow> slice) \<Rightarrow> ('c \<Rightarrow> slice) \<Rightarrow> ('d \<times> 'c list) SubDocKey \<Rightarrow> bool \<Rightarrow> slice" where
  "Encode enc_doc_key enc_subkey k include_hybrid_time =
     enc_doc_key (fst (path k)) @ concat (map enc_subkey (snd (path k)))
     @ (if include_hybrid_time \<and> has_hybrid_time k
        then kHybridTime # EncodeDocHybridTime (doc_ht k) else [])"

text \<open>The part of an encoded key that holds the timestamp.\<close>

definition time_suffix :: "'p SubDocKey \<Rightarrow> slice" where
  "time_suffix k =
     (if has_hybrid_time k then kHybridTime # EncodeDocHybridTime (doc_ht k) else [])"

text \<open>
  Modelled from the spec: the order on SubDocKeys by DocKey, then sub-path, then reverse
  DocHybridTime (section 3). Sub-paths are compared component by component, a path before
  its extensions, which is the pre-order of the document tree; of two keys with the same
  DocKey and sub-path the one without a timestamp comes first, then the versions from the
  most recent to the oldest.
\<close>

fun path_precedes :: "'c::linorder list \<Rightarrow> 'c list \<Rightarrow> bool" where
  "path_precedes [] [] = False"
| "path_precedes [] (y # ys) = True"
| "path_precedes (x # xs) [] = False"
| "path_precedes (x # xs) (y # ys) = (x < y \<or> (x = y \<and> path_precedes xs ys))"

definition time_precedes :: "'p SubDocKey \<Rightarrow> 'p SubDocKey \<Rightarrow> bool" where
  "time_precedes a b =
     (if has_hybrid_time a then has_hybrid_time b \<and> dht_less (doc_ht b) (doc_ht a)
      else has_hybrid_time b)"

definition SubDocKey_precedes ::
  "('d::linorder \<times> 'c::linorder list) SubDocKey \<Rightarrow> ('d \<times> 'c list) SubDocKey \<Rightarrow> bool" where
  "SubDocKey_precedes a b =
     (fst (path a) < fst (path b)
      \<or> (fst (path a) = fst (path b)
          \<and> (path_precedes (snd (path a)) (snd (path b))
              \<or> (snd (path a) = snd (path b) \<and> time_precedes a b))))"

text \<open>
  Modelled from the spec: what is taken of the encoders of the DocKey and of a sub-path
  component. Section 2 of the spec calls the primitive encodings ordering-preserving. For
  encodings that are concatenated this needs two more properties, which the spec leaves
  unsaid: no encoding is a prefix of the encoding of another value (the encodings delimit
  themselves), and the encoding of a sub-path component starts with a byte above the
  timestamp marker, so that the versions of a document come before its sub-documents.
\<close>

definition order_preserving :: "('a::linorder \<Rightarrow> slice) \<Rightarrow> bool" where
  "order_preserving enc = (\<forall>a b. a < b \<longrightarrow> compare (enc a) (enc b) < 0)"

definition prefix_free :: "('a \<Rightarrow> slice) \<Rightarrow> bool" where
  "prefix_free enc = (\<forall>a b. starts_with (enc a) (enc b) \<longrightarrow> a = b)"

definition above_marker :: "('a \<Rightarrow> slice) \<Rightarrow> bool" where
  "above_marker enc = (\<forall>a. enc a \<noteq> [] \<and> kHybridTime < hd (enc a))"


section \<open>Value and its TTL\<close>

text \<open>
  Modelled from the spec: \<open>Value\<close> (section 3: a type tag, payload bytes and a TTL),
  \<open>MonoDelta\<close>, the sentinel \<open>Value::kMaxTtl\<close> for a value that never expires, and the
  type tags \<open>ValueType::kTtl\<close> and \<open>ValueType::kTombstone\<close>. None of their declarations
  is part of the sources at hand. A duration is an unsigned 64-bit count in the unit of
  \<open>HybridTime\<close>.
\<close>

type_synonym MonoDelta = "64 word"

definition kMaxTtl :: MonoDelta where
  "kMaxTtl = 0x7FFFFFFFFFFFFFFF"

definition kTtl :: byte where
  "kTtl = 116"

definition kTombstone :: byte where
  "kTombstone = 88"

record Value =
  type_tag :: byte
  payload :: slice
  ttl :: MonoDelta

text \<open>
  Modelled from the spec: \<open>Value::DecodeTTL\<close> (section 4.5) strips an optional leading TTL
  field, here the marker \<open>kTtl\<close> and 8 big-endian bytes, and leaves the remaining bytes;
  without the field the TTL is the sentinel \<open>kMaxTtl\<close>.
\<close>

definition DecodeTTL :: "slice \<Rightarrow> Status + MonoDelta \<times> slice" where
  "DecodeTTL s =
     (case s of
        [] \<Rightarrow> Inr (kMaxTtl, s)
      | b # rest \<Rightarrow>
          if b = kTtl then
            (if length rest < 8 then Inl Corruption
             else Inr (of_nat (be_value (take 8 rest)), drop 8 rest))
          else Inr (kMaxTtl, s))"

text \<open>
  Modelled from the spec: \<open>Value::Decode\<close>, the decoding of a stored value: the optional
  TTL, then the type tag and the payload bytes. An empty payload is a \<open>Corruption\<close>.
\<close>

definition Value_Decode :: "slice \<Rightarrow> Status + Value" where
  "Value_Decode s =
     (case DecodeTTL s of
        Inl e \<Rightarrow> Inl e
      | Inr (t, rest) \<Rightarrow>
          (case rest of
             [] \<Rightarrow> Inl Corruption
           | tag # bytes \<Rightarrow> Inr \<lparr>type_tag = tag, payload = bytes, ttl = t\<rparr>))"

text \<open>
  Modelled from the spec: the synthesized tombstone
  \<open>Value(PrimitiveValue(ValueType::kTombstone))\<close>, a value of the tombstone type with no
  payload and no TTL.
\<close>

definition Tombstone :: Value where
  "Tombstone = \<lparr>type_tag = kTombstone, payload = [], ttl = kMaxTtl\<rparr>"

text \<open>
  Modelled from the spec: \<open>server::HybridClock::AddPhysicalTimeToHybridTime\<close> (section 6).
  The expiry instant of the spec is \<open>write_time + ttl\<close>; the sum is taken in the 64-bit
  arithmetic of \<open>HybridTime\<close>.
\<close>

definition AddPhysicalTimeToHybridTime :: "HybridTime \<Rightarrow> MonoDelta \<Rightarrow> HybridTime" where
  "AddPhysicalTimeToHybridTime ht d = ht + d"


section \<open>docdb\_rocksdb\_util.cc: SeekToValidKvAtTs\<close>

text \<open>
  The \<open>while (true)\<close> loop of \<open>SeekToValidKvAtTs\<close>. Nothing in the loop bounds the
  number of its iterations, so it is a partial function (\<open>None\<close>: the loop does not
  return). It ends in one of three ways: a \<open>RETURN_NOT_OK\<close> leaves the function with an
  error status, the not-found branch leaves it with \<open>OK\<close>, or \<open>break\<close> goes on to the
  code after the loop. The iterator is returned in the state the loop left it in.
\<close>

datatype loop_exit = ReturnedError Status | ReturnedNotFound | Break

partial_function (option) seek_to_valid_loop ::
  "int \<Rightarrow> slice \<Rightarrow> HybridTime \<Rightarrow> slice \<Rightarrow> rocksdb_iterator
     \<Rightarrow> (rocksdb_iterator \<times> loop_exit) option" where
  "seek_to_valid_loop max_nexts search_key ht seek_key_bytes it =
     (let it1 = PerformRocksDBSeek max_nexts it seek_key_bytes in
      if \<not> Valid it1 \<or> \<not> starts_with (key it1) search_key then Some (it1, ReturnedNotFound)
      else (case DecodeFromEnd (key it1) of
              Inl e \<Rightarrow> Some (it1, ReturnedError e)
            | Inr ht_from_found_key \<Rightarrow>
                if hybrid_time ht_from_found_key \<le> ht then Some (it1, Break)
                else (case ReplaceLastHybridTimeForSeek ht (key it1) of
                        Inl e \<Rightarrow> Some (it1, ReturnedError e)
                      | Inr seek_key_bytes' \<Rightarrow>
                          seek_to_valid_loop max_nexts search_key ht seek_key_bytes' it1)))"

declare seek_to_valid_loop.simps [code]

text \<open>
  What the caller sees afterwards: the returned \<open>Status\<close>, the iterator, and the three
  output parameters \<open>found_key\<close>, \<open>is_found\<close> and \<open>found_value\<close> (taken to be non-null).
\<close>

record 'p seek_outcome =
  status :: Status
  iter :: rocksdb_iterator
  found_key :: "'p SubDocKey"
  is_found :: bool
  found_value :: Value

text \<open>
  The code after the loop. \<open>found_key0\<close> and \<open>found_value0\<close> are what the output
  parameters held before the call; an output that is not written keeps it, and so does, in
  the model, \<open>found_key\<close> when its decoding fails.
\<close>

definition after_loop ::
  "'p path_decoder \<Rightarrow> HybridTime \<Rightarrow> 'p SubDocKey \<Rightarrow> Value \<Rightarrow> rocksdb_iterator
     \<Rightarrow> 'p seek_outcome" where
  "after_loop dec ht found_key0 found_value0 it =
     (case FullyDecodeFrom dec (key it) True of
        Inl e \<Rightarrow> \<lparr>status = e, iter = it, found_key = found_key0, is_found = True,
                   found_value = found_value0\<rparr>
      | Inr fk \<Rightarrow>
          (case DecodeTTL (iter_value it) of
             Inl e \<Rightarrow> \<lparr>status = e, iter = it, found_key = fk, is_found = True,
                        found_value = found_value0\<rparr>
           | Inr (t, v) \<Rightarrow>
               if t \<noteq> kMaxTtl
                  \<and> ht > AddPhysicalTimeToHybridTime (hybrid_time (doc_ht fk)) t
               then \<lparr>status = OK, iter = it,
                     found_key = SetHybridTimeForReadPath
                       (AddPhysicalTimeToHybridTime (hybrid_time (doc_ht fk)) t) fk,
                     is_found = True, found_value = Tombstone\<rparr>
               else (case Value_Decode v of
                       Inl e \<Rightarrow> \<lparr>status = e, iter = it, found_key = fk, is_found = True,
                                  found_value = found_value0\<rparr>
                     | Inr fv \<Rightarrow> \<lparr>status = OK, iter = it, found_key = fk, is_found = True,
                                   found_value = fv\<rparr>)))"

text \<open>
  \<open>SeekToValidKvAtTs\<close>: \<open>is_found\<close> is set to true at the start, the first seek key is
  the search key followed by the read time with the maximum write id.
\<close>

definition SeekToValidKvAtTs ::
  "'p path_decoder \<Rightarrow> int \<Rightarrow> rocksdb_iterator \<Rightarrow> slice \<Rightarrow> HybridTime
     \<Rightarrow> 'p SubDocKey \<Rightarrow> Value \<Rightarrow> 'p seek_outcome option" where
  "SeekToValidKvAtTs dec max_nexts it search_key ht found_key0 found_value0 =
     (case seek_to_valid_loop max_nexts search_key ht
             (AppendDocHybridTime \<lparr>hybrid_time = ht, write_id = kMaxWriteId\<rparr> search_key) it of
        None \<Rightarrow> None
      | Some (it1, ReturnedError e) \<Rightarrow>
          Some \<lparr>status = e, iter = it1, found_key = found_key0, is_found = True,
                found_value = found_value0\<rparr>
      | Some (it1, ReturnedNotFound) \<Rightarrow>
          Some \<lparr>status = OK, iter = it1, found_key = found_key0, is_found = False,
                found_value = found_value0\<rparr>
      | Some (it1, Break) \<Rightarrow> Some (after_loop dec ht found_key0 found_value0 it1))"

text \<open>
  Versions of a search key. An entry is a version of the search key when its key is the
  search key followed by the timestamp marker and one encoded timestamp; \<open>version_of\<close>
  reads that timestamp. Keys of descendants, which continue the search key with a
  sub-path component, are not versions of it. A version is visible at a read time when its
  time is at or before it. A stored value has no TTL when it is not empty and does not start
  with the TTL marker.
\<close>

definition version_of :: "slice \<Rightarrow> slice \<times> slice \<Rightarrow> DocHybridTime" where
  "version_of search_key e = DecodeDocHybridTime (drop (length search_key + 1) (fst e))"

definition is_version :: "slice \<Rightarrow> slice \<times> slice \<Rightarrow> bool" where
  "is_version search_key e = (fst e = AppendDocHybridTime (version_of search_key e) search_key)"

definition visible_version :: "slice \<Rightarrow> HybridTime \<Rightarrow> slice \<times> slice \<Rightarrow> bool" where
  "visible_version search_key read_time e =
     (is_version search_key e \<and> hybrid_time (version_of search_key e) \<le> read_time)"

definition no_ttl :: "slice \<Rightarrow> bool" where
  "no_ttl v = (v \<noteq> [] \<and> hd v \<noteq> kTtl)"

text \<open>
  A key is newer than a read time when it ends in a timestamp, as \<open>DecodeFromEnd\<close> reads
  it, whose time is after the read time.
\<close>

definition newer_than :: "HybridTime \<Rightarrow> slice \<Rightarrow> bool" where
  "newer_than read_time k =
     (case DecodeFromEnd k of Inl e \<Rightarrow> False | Inr d \<Rightarrow> read_time < hybrid_time d)"

text \<open>
  The state in which the loop of \<open>SeekToValidKvAtTs\<close> leaves the iterator, for each of
  its three exits.
\<close>

definition exit_state :: "slice \<Rightarrow> HybridTime \<Rightarrow> rocksdb_iterator \<Rightarrow> loop_exit \<Rightarrow> bool" where
  "exit_state search_key ht it x =
     (case x of
        ReturnedNotFound \<Rightarrow> \<not> Valid it \<or> \<not> starts_with (key it) search_key
      | Break \<Rightarrow> Valid it \<and> starts_with (key it) search_key
                 \<and> (case DecodeFromEnd (key it) of
                        Inl e \<Rightarrow> False | Inr d \<Rightarrow> hybrid_time d \<le> ht)
      | ReturnedError e \<Rightarrow> Valid it \<and> starts_with (key it) search_key
                 \<and> DecodeFromEnd (key it) = Inl e)"


section \<open>docdb\_rocksdb\_util.cc: the debug-only validation of seek keys\<close>

text \<open>
  The two builds, and the end of the process by a failed \<open>DCHECK\<close>.
\<close>

datatype build = Debug | Optimized

datatype abort = DCheckFailure

text \<open>
  Modelled from the spec: \<open>DecodeHybridTimeFromEndOfKey\<close>, not part of the sources at
  hand, decodes the timestamp that ends a key, as \<open>DecodeFromEnd\<close> of section 4.1 does.
\<close>

definition DecodeHybridTimeFromEndOfKey :: "slice \<Rightarrow> Status + DocHybridTime" where
  "DecodeHybridTimeFromEndOfKey k = DecodeFromEnd k"

text \<open>
  The block of \<open>PerformRocksDBSeek\<close> under \<open>#ifndef NDEBUG\<close>. \<open>seek_key_dcheck\<close> is
  true when the block runs to its end, false when the \<open>DCHECK\<close> in it fails.
\<close>

definition seek_key_dcheck :: "'p path_decoder \<Rightarrow> slice \<Rightarrow> bool" where
  "seek_key_dcheck dec seek_key =
     (case DecodeHybridTimeFromEndOfKey seek_key of
        Inl e \<Rightarrow> True
      | Inr dht \<Rightarrow>
          if write_id dht \<noteq> kMaxWriteId \<and> dht \<noteq> kMin then
            (case FullyDecodeFrom dec seek_key False of
               Inl e \<Rightarrow> True
             | Inr subdoc_key \<Rightarrow>
                 if has_hybrid_time subdoc_key
                 then write_id dht = kMaxWriteId \<or> dht = kMin
                 else True)
          else True)"

text \<open>
  \<open>PerformRocksDBSeek\<close> as built: the debug build runs the validation first, the optimized
  build (\<open>NDEBUG\<close>) has no such code.
\<close>

definition PerformRocksDBSeek_build ::
  "build \<Rightarrow> 'p path_decoder \<Rightarrow> int \<Rightarrow> rocksdb_iterator \<Rightarrow> slice
     \<Rightarrow> abort + rocksdb_iterator" where
  "PerformRocksDBSeek_build b dec max_nexts it seek_key =
     (case b of
        Debug \<Rightarrow> if seek_key_dcheck dec seek_key
                 then Inr (PerformRocksDBSeek max_nexts it seek_key)
                 else Inl DCheckFailure
      | Optimized \<Rightarrow> Inr (PerformRocksDBSeek max_nexts it seek_key))"


section \<open>plain\_block.h: PlainBlockDecoder\<close>

text \<open>
  A read of \<open>data_\<close> outside the block is undefined behaviour in C++; the model makes it
  a fault of its own.
\<close>

datatype fault = ReadOutsideBlock

text \<open>
  The decoder after \<open>ParseHeader\<close>: \<open>elems\<close> holds the fixed-size values that follow the
  8-byte header, so that element \<open>i\<close> is
  \<open>Decode<CppType>(&data_[kPlainBlockHeaderSize + i * size_of_type])\<close>; \<open>num_elems\<close> and
  \<open>cur_idx\<close> are the \<open>uint32_t\<close> fields. \<open>ParseHeader\<close> accepts a block only when
  \<open>data_.size() = kPlainBlockHeaderSize + num_elems_ * size_of_type\<close>, that is when
  \<open>unat num_elems = length elems\<close>. \<open>CppType\<close> is any type with a linear order.
\<close>

record 'a PlainBlockDecoder =
  elems :: "'a list"
  num_elems :: "32 word"
  cur_idx :: "32 word"

text \<open>
  The \<open>while (left != right)\<close> loop of \<open>SeekAtOrAfterValue\<close>. \<open>left\<close>, \<open>right\<close> and
  \<open>mid\<close> are \<open>uint32_t\<close>: the sum \<open>left + right\<close> wraps around at \<open>2 ^ 32\<close>, and then
  nothing bounds the number of iterations, so the loop is a partial function
  (\<open>None\<close>: it does not return). The result is the index found and whether it was found by
  the exact-match branch.
\<close>

partial_function (option) search_loop ::
  "'a::linorder list \<Rightarrow> 'a \<Rightarrow> 32 word \<Rightarrow> 32 word \<Rightarrow> (fault + 32 word \<times> bool) option" where
  "search_loop data target left right =
     (if left \<noteq> right then
        (let mid = (left + right) div 2 in
         if unat mid < length data then
           (let mid_key = data ! unat mid in
            if mid_key < target then search_loop data target (mid + 1) right
            else if mid_key > target then search_loop data target left mid
            else Some (Inr (mid, True)))
         else Some (Inl ReadOutsideBlock))
      else Some (Inr (left, False)))"

declare search_loop.simps [code]

definition SeekAtOrAfterValue ::
  "'a::linorder PlainBlockDecoder \<Rightarrow> 'a
     \<Rightarrow> (fault + Status \<times> 'a PlainBlockDecoder \<times> bool) option" where
  "SeekAtOrAfterValue d target =
     (case search_loop (elems d) target 0 (num_elems d) of
        None \<Rightarrow> None
      | Some (Inl f) \<Rightarrow> Some (Inl f)
      | Some (Inr (idx, exact_match)) \<Rightarrow>
          if exact_match then Some (Inr (OK, d\<lparr>cur_idx := idx\<rparr>, True))
          else if idx = num_elems d then Some (Inr (NotFound, d\<lparr>cur_idx := idx\<rparr>, False))
          else Some (Inr (OK, d\<lparr>cur_idx := idx\<rparr>, False)))"


section \<open>Example keyspaces\<close>

text \<open>A keyspace of four one-byte keys, with the iterator at position \<open>p\<close>.\<close>

definition example_iterator :: "nat \<Rightarrow> rocksdb_iterator" where
  "example_iterator p =
     \<lparr>entries = [([1], [10]), ([2], [20]), ([3], [30]), ([4], [40])], pos = p, calls = []\<rparr>"

text \<open>An iterator over a keyspace that has not been positioned yet.\<close>

definition fresh_iterator :: "(slice \<times> slice) list \<Rightarrow> rocksdb_iterator" where
  "fresh_iterator es = \<lparr>entries = es, pos = length es, calls = []\<rparr>"

text \<open>
  Path decoders for keys whose DocKey and sub-path take one byte, or two bytes.
\<close>

definition example_path_decoder :: "slice path_decoder" where
  "example_path_decoder s = Some (take 1 s, 1)"

definition two_byte_path_decoder :: "slice path_decoder" where
  "two_byte_path_decoder s = Some (take 2 s, 2)"

text \<open>
  Three versions of the key \<open>[65]\<close>, written at times 20, 10 and 5, without TTL; the engine
  holds the most recent first.
\<close>

definition example_versions :: "(slice \<times> slice) list" where
  "example_versions =
     [(AppendDocHybridTime \<lparr>hybrid_time = 20, write_id = 0\<rparr> [65], [83, 3]),
      (AppendDocHybridTime \<lparr>hybrid_time = 10, write_id = 0\<rparr> [65], [83, 2]),
      (AppendDocHybridTime \<lparr>hybrid_time = 5, write_id = 0\<rparr> [65], [83, 1])]"

text \<open>
  The same three versions, followed by the element \<open>[65, 66]\<close> of the document, written
  at time 4. A path decoder for such keys, whose path bytes all differ from the timestamp
  marker: the path is what precedes the first marker.
\<close>

definition example_versions_and_child :: "(slice \<times> slice) list" where
  "example_versions_and_child =
     example_versions @ [(AppendDocHybridTime \<lparr>hybrid_time = 4, write_id = 0\<rparr> [65, 66], [83, 9])]"

definition marker_path_decoder :: "slice path_decoder" where
  "marker_path_decoder s =
     Some (takeWhile (\<lambda>b. b \<noteq> kHybridTime) s, length (takeWhile (\<lambda>b. b \<noteq> kHybridTime) s))"

text \<open>An iterator over a keyspace that is positioned at the entry of index \<open>p\<close>.\<close>

definition positioned_iterator :: "(slice \<times> slice) list \<Rightarrow> nat \<Rightarrow> rocksdb_iterator" where
  "positioned_iterator es p = \<lparr>entries = es, pos = p, calls = []\<rparr>"

text \<open>One version of the key \<open>[65]\<close>, written at time 100 with a TTL of 50.\<close>

definition example_ttl_value :: "(slice \<times> slice) list" where
  "example_ttl_value =
     [(AppendDocHybridTime \<lparr>hybrid_time = 100, write_id = 0\<rparr> [65],
       [116, 0, 0, 0, 0, 0, 0, 0, 50, 83, 7])]"

text \<open>
  The example of the comment in \<open>SeekToValidKvAtTs\<close>: no entry for \<open>a\<close> itself, \<open>a.b\<close>
  written at time 20 and \<open>a.c\<close> at time 10 (\<open>a\<close>, \<open>b\<close>, \<open>c\<close> are the bytes 65, 66, 67).
\<close>

definition example_subdocument :: "(slice \<times> slice) list" where
  "example_subdocument =
     [(AppendDocHybridTime \<lparr>hybrid_time = 20, write_id = 0\<rparr> [65, 66], [83, 1]),
      (AppendDocHybridTime \<lparr>hybrid_time = 10, write_id = 0\<rparr> [65, 67], [83, 2])]"

text \<open>What the output parameter \<open>found_key\<close> holds before a call.\<close>

definition no_key :: "slice SubDocKey" where
  "no_key = \<lparr>path = [], has_hybrid_time = False, doc_ht = kMin\<rparr>"

text \<open>
  Encoders for keys whose DocKey is one byte, written as it is, and whose sub-path
  components are bytes, each written after the type tag 36. The document 7 with the
  element \<open>[1, 2]\<close> written at times 10 and 5, and its element \<open>[1]\<close> written at time 5.
\<close>

definition example_enc_doc_key :: "byte \<Rightarrow> slice" where
  "example_enc_doc_key b = [b]"

definition example_enc_subkey :: "byte \<Rightarrow> slice" where
  "example_enc_subkey b = [36, b]"

definition example_key :: "byte list \<Rightarrow> HybridTime \<Rightarrow> (byte \<times> byte list) SubDocKey" where
  "example_key p t =
     \<lparr>path = (7, p), has_hybrid_time = True, doc_ht = \<lparr>hybrid_time = t, write_id = 0\<rparr>\<rparr>"

text \<open>A block of four sorted values, and a sorted block that holds a value twice.\<close>

definition example_block :: "32 word PlainBlockDecoder" where
  "example_block = \<lparr>elems = [1, 3, 5, 7], num_elems = 4, cur_idx = 0\<rparr>"

definition example_block_duplicates :: "32 word PlainBlockDecoder" where
  "example_block_duplicates = \<lparr>elems = [5, 5], num_elems = 2, cur_idx = 0\<rparr>"


section \<open>Properties of the byte order\<close>

lemma compare_range: "compare a b = -1 \<or> compare a b = 0 \<or> compare a b = 1"
  by (induction a b rule: compare.induct) auto

lemma compare_antisym: "compare b a = - compare a b"
  by (induction a b rule: compare.induct) auto

lemma compare_eq_0: "compare a b = 0 \<longleftrightarrow> a = b"
  by (induction a b rule: compare.induct) auto

lemma compare_less_trans: "compare a b < 0 \<Longrightarrow> compare b c < 0 \<Longrightarrow> compare a c < 0"
proof (induction a b arbitrary: c rule: compare.induct)
  case (1)
  then show ?case by simp
next
  case (2 y ys)
  then show ?case by (cases c) auto
next
  case (3 x xs)
  then show ?case by simp
next
  case (4 x xs y ys)
  then show ?case by (cases c) (auto split: if_splits)
qed

lemma compare_le_less_trans: "compare a b \<le> 0 \<Longrightarrow> compare b c < 0 \<Longrightarrow> compare a c < 0"
  using compare_less_trans [of a b c] compare_range [of a b] compare_eq_0 [of a b] by auto

lemma compare_less_le_trans: "compare a b < 0 \<Longrightarrow> compare b c \<le> 0 \<Longrightarrow> compare a c < 0"
  using compare_less_trans [of a b c] compare_range [of b c] compare_eq_0 [of b c] by auto

lemma compare_Nil_right: "0 \<le> compare k []"
  by (cases k) auto


lemma compare_not_prefix:
  "\<not> starts_with k p \<Longrightarrow> compare k (p @ x) = compare k p"
proof (induction k p rule: compare.induct)
  case 1
  then show ?case by (simp add: starts_with_def)
next
  case (2 y ys)
  then show ?case by simp
next
  case (3 x xs)
  then show ?case by (simp add: starts_with_def)
next
  case (4 a k b p)
  then show ?case by (auto simp: starts_with_def)
qed


section \<open>Properties of the native seek\<close>

lemma keyspace_sorted_nth:
  "keyspace_sorted es \<Longrightarrow> i < j \<Longrightarrow> j < length es \<Longrightarrow> compare (fst (es ! i)) (fst (es ! j)) < 0"
  by (simp add: keyspace_sorted_def sorted_wrt_iff_nth_less)

lemma lower_bound_geI:
  assumes "n \<le> length es" and "\<And>i. i < n \<Longrightarrow> compare (fst (es ! i)) k < 0"
  shows "n \<le> lower_bound es k"
  unfolding lower_bound_def using assms by (intro length_takeWhile_less_P_nth) auto

lemma lower_bound_le: "lower_bound es k \<le> length es"
  by (simp add: lower_bound_def length_takeWhile_le)

lemma lower_bound_before:
  assumes "i < lower_bound es k"
  shows "compare (fst (es ! i)) k < 0"
proof -
  let ?P = "\<lambda>e. compare (fst e) k < 0"
  from assms have l: "i < length (takeWhile ?P es)" by (simp add: lower_bound_def)
  then have "takeWhile ?P es ! i \<in> set (takeWhile ?P es)" by simp
  then have "?P (takeWhile ?P es ! i)" by (rule set_takeWhileD [THEN conjunct2])
  moreover have "takeWhile ?P es ! i = es ! i" using l by (rule takeWhile_nth)
  ultimately show ?thesis by simp
qed

lemma lower_bound_at:
  "lower_bound es k < length es \<Longrightarrow> compare (fst (es ! lower_bound es k)) k \<ge> 0"
  unfolding lower_bound_def using nth_length_takeWhile [of "\<lambda>e. compare (fst e) k < 0" es]
  by auto

lemma lower_bound_eqI:
  assumes "n \<le> length es"
    and "\<And>i. i < n \<Longrightarrow> compare (fst (es ! i)) k < 0"
    and "n < length es \<Longrightarrow> compare (fst (es ! n)) k \<ge> 0"
  shows "lower_bound es k = n"
proof -
  have "n \<le> lower_bound es k" using assms(1,2) by (rule lower_bound_geI)
  moreover have "\<not> n < lower_bound es k"
  proof
    assume lt: "n < lower_bound es k"
    then have "compare (fst (es ! n)) k < 0" by (rule lower_bound_before)
    moreover have "n < length es" using lt lower_bound_le [of es k] by simp
    ultimately show False using assms(3) by simp
  qed
  ultimately show ?thesis by simp
qed

lemma lower_bound_empty: "lower_bound es [] = 0"
proof (rule lower_bound_eqI)
  show "0 \<le> compare (fst (es ! 0)) []" by (rule compare_Nil_right)
qed auto

lemma before_pos_less:
  assumes "keyspace_sorted (entries it)" and "Valid it" and "compare (key it) k \<le> 0"
    and "i < pos it"
  shows "compare (fst (entries it ! i)) k < 0"
proof -
  have "compare (fst (entries it ! i)) (key it) < 0"
    using keyspace_sorted_nth [OF assms(1), of i "pos it"] assms(2,4)
    by (simp add: Valid_def key_def)
  then show ?thesis using assms(3) by (rule compare_less_le_trans)
qed


section \<open>PerformRocksDBSeek\<close>

lemma seek_loop_entries: "entries (seek_loop m k n it) = entries it"
proof (induction m k n it rule: seek_loop.induct)
  case (1 m k n it)
  then show ?case
    by (subst seek_loop.simps) (simp add: Next_def Seek_def)
qed

lemma seek_loop_last_seek:
  assumes "Valid it" and "compare (key it) k < 0"
  shows "seek_loop m k m it = Seek k it"
proof -
  have "seek_loop m k m it = seek_loop m k (m + 1) (Seek k it)"
    using assms by (subst seek_loop.simps) simp
  also have "\<dots> = Seek k it" by (subst seek_loop.simps) simp
  finally show ?thesis .
qed

lemma seek_loop_pos:
  assumes "0 \<le> n" "n \<le> m" "pos it \<le> length (entries it)"
    and "\<And>i. i < pos it \<Longrightarrow> compare (fst (entries it ! i)) k < 0"
  shows "pos (seek_loop m k n it) = lower_bound (entries it) k"
  using assms
proof (induction m k n it rule: seek_loop.induct)
  case (1 m k n it)
  show ?case
  proof (cases "\<not> Valid it \<or> compare (key it) k \<ge> 0")
    case True
    have "lower_bound (entries it) k = pos it"
      using True "1.prems" by (intro lower_bound_eqI) (auto simp: Valid_def key_def)
    with True "1.prems" show ?thesis by (subst seek_loop.simps) simp
  next
    case False
    then have v: "Valid it" and lt: "compare (key it) k < 0" by auto
    show ?thesis
    proof (cases "n < m")
      case True
      have "pos (seek_loop m k (n + 1) (Next it)) = lower_bound (entries (Next it)) k"
      proof (rule "1.IH"(1))
        show "n \<le> m" by (rule "1.prems")
        show "\<not> (\<not> Valid it \<or> 0 \<le> compare (key it) k)" using False .
        show "n < m" by (rule True)
        show "0 \<le> n + 1" using "1.prems" by simp
        show "n + 1 \<le> m" using True by simp
        show "pos (Next it) \<le> length (entries (Next it))"
          using v by (simp add: Next_def Valid_def)
        fix i assume "i < pos (Next it)"
        then have "i < pos it \<or> i = pos it" by (auto simp: Next_def)
        then show "compare (fst (entries (Next it) ! i)) k < 0"
          using "1.prems"(4) lt by (auto simp: Next_def key_def)
      qed
      with True False "1.prems" show ?thesis
        by (subst seek_loop.simps) (simp add: Next_def)
    next
      case nlt: False
      with "1.prems" have "n = m" by simp
      then show ?thesis using seek_loop_last_seek [OF v lt, of m] by (simp add: Seek_def)
    qed
  qed
qed

lemma seek_loop_pos_mono:
  assumes "pos it \<le> length (entries it)"
    and "\<And>i. i < pos it \<Longrightarrow> compare (fst (entries it ! i)) k < 0"
  shows "pos it \<le> pos (seek_loop m k n it)"
  using assms
proof (induction m k n it rule: seek_loop.induct)
  case (1 m k n it)
  show ?case
  proof (cases "n \<le> m \<and> \<not> (\<not> Valid it \<or> compare (key it) k \<ge> 0)")
    case False
    then show ?thesis by (subst seek_loop.simps) auto
  next
    case True
    then have nm: "n \<le> m" and v: "Valid it" and lt: "compare (key it) k < 0" by auto
    have upto: "compare (fst (entries it ! i)) k < 0" if "i < pos it + 1" for i
    proof -
      from that have "i < pos it \<or> i = pos it" by auto
      then show ?thesis using "1.prems"(2) lt by (auto simp: key_def)
    qed
    show ?thesis
    proof (cases "n < m")
      case lt_m: True
      have "pos (Next it) \<le> pos (seek_loop m k (n + 1) (Next it))"
      proof (rule "1.IH"(1))
        show "n \<le> m" by (rule nm)
        show "\<not> (\<not> Valid it \<or> 0 \<le> compare (key it) k)" using v lt by simp
        show "n < m" by (rule lt_m)
        show "pos (Next it) \<le> length (entries (Next it))"
          using v by (simp add: Next_def Valid_def)
        fix i assume "i < pos (Next it)"
        then show "compare (fst (entries (Next it) ! i)) k < 0"
          using upto [of i] by (simp add: Next_def)
      qed
      then show ?thesis using nm v lt lt_m
        by (subst seek_loop.simps) (simp add: Next_def)
    next
      case False
      with nm have e: "n = m" by simp
      have "pos (seek_loop m k n it) = lower_bound (entries it) k"
        using seek_loop_last_seek [OF v lt, of m] e by (simp add: Seek_def)
      moreover have "pos it + 1 \<le> lower_bound (entries it) k"
        using v upto by (intro lower_bound_geI) (auto simp: Valid_def)
      ultimately show ?thesis by simp
    qed
  qed
qed

lemma PerformRocksDBSeek_entries: "entries (PerformRocksDBSeek m it k) = entries it"
  by (simp add: PerformRocksDBSeek_def SeekToFirst_def Seek_def seek_loop_entries)

lemma PerformRocksDBSeek_pos:
  assumes "keyspace_sorted (entries it)" and "0 \<le> max_nexts"
  shows "pos (PerformRocksDBSeek max_nexts it seek_key) = lower_bound (entries it) seek_key"
proof (cases "seek_key = []")
  case True
  then show ?thesis by (simp add: PerformRocksDBSeek_def SeekToFirst_def lower_bound_empty)
next
  case ne: False
  show ?thesis
  proof (cases "\<not> Valid it \<or> compare (key it) seek_key > 0")
    case True
    with ne show ?thesis by (simp add: PerformRocksDBSeek_def Seek_def)
  next
    case False
    then have v: "Valid it" and le: "compare (key it) seek_key \<le> 0" by auto
    have "pos (seek_loop max_nexts seek_key 0 it) = lower_bound (entries it) seek_key"
    proof (rule seek_loop_pos)
      show "pos it \<le> length (entries it)" using v by (simp add: Valid_def)
      show "\<And>i. i < pos it \<Longrightarrow> compare (fst (entries it ! i)) seek_key < 0"
        using assms(1) v le by (rule before_pos_less)
    qed (use assms(2) in auto)
    with ne False show ?thesis by (simp add: PerformRocksDBSeek_def)
  qed
qed

text \<open>
  Claim C3, as amended. For every iterator over an ordered keyspace, in any state (valid at
  any position or invalid), every seek key and every value of the flag
  \<open>max_nexts_to_avoid_seek\<close> that is not negative, the position \<open>PerformRocksDBSeek\<close>
  leaves the iterator at, and so the key and value read there afterwards, is the one a single
  native \<open>Seek(seek_key)\<close> leaves it at, whichever of the three branches ran and whether
  or not the step budget was exhausted.
\<close>

theorem PerformRocksDBSeek_same_as_Seek:
  assumes "keyspace_sorted (entries it)" and "0 \<le> max_nexts"
  shows "pos (PerformRocksDBSeek max_nexts it seek_key) = pos (Seek seek_key it)
       \<and> entries (PerformRocksDBSeek max_nexts it seek_key) = entries (Seek seek_key it)
       \<and> Valid (PerformRocksDBSeek max_nexts it seek_key) = Valid (Seek seek_key it)
       \<and> key (PerformRocksDBSeek max_nexts it seek_key) = key (Seek seek_key it)
       \<and> iter_value (PerformRocksDBSeek max_nexts it seek_key) = iter_value (Seek seek_key it)"
proof -
  have "pos (PerformRocksDBSeek max_nexts it seek_key) = pos (Seek seek_key it)"
    using PerformRocksDBSeek_pos [OF assms] by (simp add: Seek_def)
  moreover have "entries (PerformRocksDBSeek max_nexts it seek_key) = entries (Seek seek_key it)"
    by (simp add: Seek_def PerformRocksDBSeek_entries)
  ultimately show ?thesis by (simp add: Valid_def key_def iter_value_def)
qed

text \<open>
  The claim at a concrete input: with a budget of one step the iterator at the first of four
  keys reaches the fourth by one step and the fallback seek, and with the default budget by
  three steps and no seek; both times it is the position a native seek alone gives.
\<close>

theorem PerformRocksDBSeek_same_as_Seek_witness:
  "keyspace_sorted (entries (example_iterator 0)) \<and> (0::int) \<le> 1
   \<and> pos (PerformRocksDBSeek 1 (example_iterator 0) [4]) = 3
   \<and> pos (Seek [4] (example_iterator 0)) = 3
   \<and> key (PerformRocksDBSeek 1 (example_iterator 0) [4]) = [4]
   \<and> calls (PerformRocksDBSeek 1 (example_iterator 0) [4]) = [CallNext, CallSeek [4]]
   \<and> calls (PerformRocksDBSeek default_max_nexts_to_avoid_seek (example_iterator 0) [4])
       = [CallNext, CallNext, CallNext]
   \<and> pos (PerformRocksDBSeek default_max_nexts_to_avoid_seek (example_iterator 0) [4]) = 3"
proof -
  have h1: "keyspace_sorted (entries (example_iterator 0))"
    by (simp add: example_iterator_def keyspace_sorted_def)
  have h2: "(0::int) \<le> 1" by simp
  note general = PerformRocksDBSeek_same_as_Seek [OF h1 h2, of "[4]"]
  show ?thesis using general h1
    by (simp add: example_iterator_def Valid_def key_def PerformRocksDBSeek_def Next_def
        Seek_def lower_bound_def seek_loop.simps default_max_nexts_to_avoid_seek_def)
qed

text \<open>
  The claim as stated, for every iterator state and seek key whatever the flag, fails when
  the flag is negative. The flag is a signed 32-bit integer that nothing in the code
  restricts; with the value \<open>-1\<close> the \<open>for\<close> loop does not run its body, so an iterator
  at the first of the four keys that is asked for the fourth receives no engine call and
  stays at the first key, where a native seek puts it at the fourth.
\<close>

theorem PerformRocksDBSeek_negative_flag_counterexample:
  "PerformRocksDBSeek (-1) (example_iterator 0) [4] = example_iterator 0
   \<and> calls (PerformRocksDBSeek (-1) (example_iterator 0) [4]) = []
   \<and> pos (PerformRocksDBSeek (-1) (example_iterator 0) [4]) = 0
   \<and> key (PerformRocksDBSeek (-1) (example_iterator 0) [4]) = [1]
   \<and> pos (Seek [4] (example_iterator 0)) = 3
   \<and> key (Seek [4] (example_iterator 0)) = [4]"
  by (simp add: PerformRocksDBSeek_def example_iterator_def Valid_def key_def Seek_def
      lower_bound_def seek_loop.simps)

lemma seek_loop_step_or_seek:
  "0 \<le> n \<Longrightarrow> n \<le> m \<Longrightarrow> seek_loop m k n it = step_or_seek (nat (m - n)) k it"
proof (induction m k n it rule: seek_loop.induct)
  case (1 m k n it)
  show ?case
  proof (cases "\<not> Valid it \<or> compare (key it) k \<ge> 0")
    case True
    then show ?thesis using "1.prems"
      by (subst seek_loop.simps) (cases "nat (m - n)"; simp)
  next
    case False
    show ?thesis
    proof (cases "n < m")
      case True
      then obtain b where b: "nat (m - n) = Suc b" "nat (m - (n + 1)) = b"
        by (cases "nat (m - n)") auto
      have "seek_loop m k (n + 1) (Next it) = step_or_seek (nat (m - (n + 1))) k (Next it)"
        using "1.IH"(1) "1.prems" False True by simp
      then show ?thesis using False True "1.prems" b
        by (subst seek_loop.simps) simp
    next
      case nlt: False
      with "1.prems" have nm: "n = m" by simp
      then show ?thesis using False seek_loop_last_seek [of it k m] by simp
    qed
  qed
qed

text \<open>
  Claim C4, as amended. \<open>PerformRocksDBSeek\<close> is the three-branch algorithm
  \<open>three_branch_seek\<close>: an empty seek key repositions the iterator to the very first key;
  otherwise an iterator that is invalid or positioned strictly after the seek key gets a
  native seek directly; otherwise (the iterator is valid and at or before the seek key) it
  is advanced by single steps, at most \<open>max_nexts\<close> of them, each taken only while the
  iterator is valid and still before the seek key, and exactly one native seek follows if
  the steps are used up with the iterator still before the seek key.
\<close>

theorem PerformRocksDBSeek_three_branches:
  "0 \<le> max_nexts \<Longrightarrow>
     PerformRocksDBSeek max_nexts it seek_key = three_branch_seek (nat max_nexts) it seek_key"
  by (simp add: PerformRocksDBSeek_def three_branch_seek_def seek_loop_step_or_seek)

text \<open>
  With the default bound of 8 steps, from the first of the four keys to the third: the
  algorithm in words and the code both take two steps and no seek.
\<close>

theorem PerformRocksDBSeek_three_branches_witness:
  "0 \<le> default_max_nexts_to_avoid_seek
   \<and> PerformRocksDBSeek default_max_nexts_to_avoid_seek (example_iterator 0) [3]
       = three_branch_seek 8 (example_iterator 0) [3]
   \<and> calls (PerformRocksDBSeek default_max_nexts_to_avoid_seek (example_iterator 0) [3])
       = [CallNext, CallNext]"
proof -
  have h: "0 \<le> default_max_nexts_to_avoid_seek"
    by (simp add: default_max_nexts_to_avoid_seek_def)
  have n: "nat default_max_nexts_to_avoid_seek = 8"
    by (simp add: default_max_nexts_to_avoid_seek_def)
  have "calls (PerformRocksDBSeek default_max_nexts_to_avoid_seek (example_iterator 0) [3])
      = [CallNext, CallNext]"
    by (simp add: PerformRocksDBSeek_def default_max_nexts_to_avoid_seek_def
        example_iterator_def Valid_def key_def Next_def seek_loop.simps)
  then show ?thesis
    using PerformRocksDBSeek_three_branches [OF h, of "example_iterator 0" "[3]"] h n by simp
qed

text \<open>
  The claim as stated fails in its second and third branch. An iterator positioned before
  the seek key is not given a native seek: it is stepped (here twice, and no seek is
  issued). An iterator positioned after the seek key is not stepped: it is given the native
  seek at once.
\<close>

theorem PerformRocksDBSeek_branches_counterexample:
  "Valid (example_iterator 0) \<and> compare (key (example_iterator 0)) [3] \<le> 0
   \<and> calls (PerformRocksDBSeek 8 (example_iterator 0) [3]) = [CallNext, CallNext]
   \<and> Valid (example_iterator 2) \<and> compare (key (example_iterator 2)) [2] > 0
   \<and> calls (PerformRocksDBSeek 8 (example_iterator 2) [2]) = [CallSeek [2]]"
  by (simp add: PerformRocksDBSeek_def example_iterator_def Valid_def key_def Next_def Seek_def
      seek_loop.simps)


section \<open>SeekForward\<close>

text \<open>
  Claim C7. Over an ordered keyspace \<open>SeekForward\<close> never moves the iterator backward.
  When the iterator is positioned at a key at or after the target the call changes nothing;
  the iterator is touched only when it is valid and its key is strictly before the target;
  and the position after the call is never before the position before it.
\<close>

theorem SeekForward_never_backward:
  assumes "keyspace_sorted (entries it)"
  shows "(Valid it \<and> compare (key it) target \<ge> 0 \<longrightarrow> SeekForward max_nexts target it = it)
       \<and> (SeekForward max_nexts target it \<noteq> it \<longrightarrow> Valid it \<and> compare (key it) target < 0)
       \<and> pos it \<le> pos (SeekForward max_nexts target it)"
proof (cases "\<not> Valid it \<or> compare (key it) target \<ge> 0")
  case True
  then show ?thesis by (auto simp: SeekForward_def)
next
  case False
  then have v: "Valid it" and lt: "compare (key it) target < 0" by auto
  have ne: "target \<noteq> []" using lt compare_Nil_right [of "key it"] by auto
  have "pos it \<le> pos (seek_loop max_nexts target 0 it)"
  proof (rule seek_loop_pos_mono)
    show "pos it \<le> length (entries it)" using v by (simp add: Valid_def)
    show "\<And>i. i < pos it \<Longrightarrow> compare (fst (entries it ! i)) target < 0"
      using assms v lt by (intro before_pos_less) auto
  qed
  then show ?thesis using v lt ne
    by (simp add: SeekForward_def PerformRocksDBSeek_def)
qed

theorem SeekForward_never_backward_witness:
  "keyspace_sorted (entries (example_iterator 1))
   \<and> SeekForward 8 [2] (example_iterator 1) = example_iterator 1
   \<and> pos (SeekForward 8 [4] (example_iterator 1)) = 3"
  using SeekForward_never_backward [of "example_iterator 1" "[2]" 8]
  by (simp add: example_iterator_def keyspace_sorted_def Valid_def key_def SeekForward_def
      PerformRocksDBSeek_def Next_def seek_loop.simps)

text \<open>
  Claim C10. On an iterator that is invalid (exhausted) \<open>SeekForward\<close> does nothing, for
  every target: the iterator is returned as it was, so no engine call is issued and it stays
  invalid, also when the keyspace holds keys at or after the target.
\<close>

theorem SeekForward_invalid_noop:
  "\<not> Valid it \<Longrightarrow> SeekForward max_nexts target it = it"
  by (simp add: SeekForward_def)

text \<open>
  At a concrete input: the exhausted iterator stays exhausted with no call recorded, though
  a native seek to the same target would have found the second key.
\<close>

theorem SeekForward_invalid_noop_witness:
  "\<not> Valid (example_iterator 4) \<and> SeekForward 8 [2] (example_iterator 4) = example_iterator 4
   \<and> \<not> Valid (SeekForward 8 [2] (example_iterator 4))
   \<and> calls (SeekForward 8 [2] (example_iterator 4)) = []
   \<and> pos (Seek [2] (example_iterator 4)) = 1"
  using SeekForward_invalid_noop [of "example_iterator 4" 8 "[2]"]
  by (simp add: example_iterator_def Valid_def Seek_def lower_bound_def)


section \<open>The DocHybridTime codec reverses the order\<close>

lemma length_be_bytes [simp]: "length (be_bytes n x) = n"
  by (induction n) auto

lemma be_value_bound: "be_value bs < 256 ^ length bs"
proof (induction bs)
  case Nil
  then show ?case by simp
next
  case (Cons b bs)
  have b: "unat b + 1 \<le> 256" using unsigned_less [of b, where ?'a = nat] by simp
  have "be_value (b # bs) = unat b * 256 ^ length bs + be_value bs" by simp
  also have "\<dots> < unat b * 256 ^ length bs + 256 ^ length bs" using Cons by simp
  also have "\<dots> = (unat b + 1) * 256 ^ length bs" by simp
  also have "\<dots> \<le> 256 * 256 ^ length bs" using b by (rule mult_le_mono1)
  finally show ?case by simp
qed

lemma unat_byte_of_nat: "unat (of_nat (x mod 256) :: byte) = x mod 256"
  by (simp add: unat_of_nat)

lemma be_value_be_bytes: "be_value (be_bytes n x) = x mod 256 ^ n"
proof (induction n)
  case 0
  then show ?case by simp
next
  case (Suc n)
  have "x mod (256 ^ n * 256) = 256 ^ n * (x div 256 ^ n mod 256) + x mod 256 ^ n"
    by (rule mod_mult2_eq)
  with Suc show ?case by (simp add: unat_byte_of_nat mult.commute)
qed

lemma compare_be_value:
  "length x = length y \<Longrightarrow> compare x y < 0 \<longleftrightarrow> be_value x < be_value y"
proof (induction x y rule: compare.induct)
  case (4 a x b y)
  then have len: "length x = length y" by simp
  have bx: "be_value x < 256 ^ length y" using be_value_bound [of x] len by simp
  have by': "be_value y < 256 ^ length y" by (rule be_value_bound)
  show ?case
  proof (cases "a < b")
    case True
    then have "unat a + 1 \<le> unat b" by (simp add: word_less_nat_alt)
    then have "(unat a + 1) * 256 ^ length y \<le> unat b * 256 ^ length y"
      by (rule mult_le_mono1)
    then have "be_value (a # x) < be_value (b # y)" using bx len by simp
    with True show ?thesis by simp
  next
    case False
    show ?thesis
    proof (cases "b < a")
      case True
      then have "unat b + 1 \<le> unat a" by (simp add: word_less_nat_alt)
      then have "(unat b + 1) * 256 ^ length y \<le> unat a * 256 ^ length y"
        by (rule mult_le_mono1)
      then have "\<not> be_value (a # x) < be_value (b # y)" using by' len by simp
      with True False show ?thesis by simp
    next
      case nlt: False
      with False have "a = b" by simp
      with False 4 len show ?thesis by simp
    qed
  qed
qed auto

lemma compare_append_same: "compare (p @ a) (p @ b) = compare a b"
  by (induction p) auto

lemma compare_append_eq_len:
  "length x = length y \<Longrightarrow>
     compare (x @ u) (y @ v) = (if compare x y = 0 then compare u v else compare x y)"
  by (induction x y rule: compare.induct) auto

lemma compare_be_value_eq:
  assumes "length x = length y"
  shows "compare x y = 0 \<longleftrightarrow> be_value x = be_value y"
proof -
  have "compare x y < 0 \<longleftrightarrow> be_value x < be_value y" using assms by (rule compare_be_value)
  moreover have "compare y x < 0 \<longleftrightarrow> be_value y < be_value x"
    using assms by (intro compare_be_value) simp
  moreover have "compare y x = - compare x y" by (rule compare_antisym)
  ultimately show ?thesis by auto
qed

lemma unat_ht_bound: "unat (t :: HybridTime) < 2 ^ 64"
  using unsigned_less [of t, where ?'a = nat] by simp

lemma unat_wid_bound: "unat (w :: IntraTxnWriteId) < 2 ^ 32"
  using unsigned_less [of w, where ?'a = nat] by simp

lemma be_value_be_bytes_small: "x < 256 ^ n \<Longrightarrow> be_value (be_bytes n x) = x"
  by (simp add: be_value_be_bytes)

lemma be_value_time:
  "be_value (be_bytes 8 (2 ^ 64 - 1 - unat (t :: HybridTime))) = 2 ^ 64 - 1 - unat t"
  by (rule be_value_be_bytes_small) simp

lemma be_value_wid:
  "be_value (be_bytes 4 (2 ^ 32 - 1 - unat (w :: IntraTxnWriteId))) = 2 ^ 32 - 1 - unat w"
  by (rule be_value_be_bytes_small) simp

lemma length_EncodeDocHybridTime [simp]: "length (EncodeDocHybridTime d) = 12"
  by (simp add: EncodeDocHybridTime_def)

lemma compare_time_bytes:
  "compare (be_bytes 8 (2 ^ 64 - 1 - unat (a :: HybridTime)))
           (be_bytes 8 (2 ^ 64 - 1 - unat (b :: HybridTime))) < 0 \<longleftrightarrow> b < a"
proof -
  have "unat a < 2 ^ 64" "unat b < 2 ^ 64" by (rule unat_ht_bound)+
  then have "2 ^ 64 - 1 - unat a < 2 ^ 64 - 1 - unat b \<longleftrightarrow> unat b < unat a" by linarith
  then show ?thesis
    by (simp only: compare_be_value length_be_bytes be_value_time word_less_nat_alt)
qed

lemma compare_time_bytes_eq:
  "compare (be_bytes 8 (2 ^ 64 - 1 - unat (a :: HybridTime)))
           (be_bytes 8 (2 ^ 64 - 1 - unat (b :: HybridTime))) = 0 \<longleftrightarrow> a = b"
proof -
  have "unat a < 2 ^ 64" "unat b < 2 ^ 64" by (rule unat_ht_bound)+
  then have "2 ^ 64 - 1 - unat a = 2 ^ 64 - 1 - unat b \<longleftrightarrow> unat a = unat b" by linarith
  then show ?thesis
    by (simp only: compare_be_value_eq length_be_bytes be_value_time word_unat_eq_iff)
qed

lemma compare_wid_bytes:
  "compare (be_bytes 4 (2 ^ 32 - 1 - unat (a :: IntraTxnWriteId)))
           (be_bytes 4 (2 ^ 32 - 1 - unat (b :: IntraTxnWriteId))) < 0 \<longleftrightarrow> b < a"
proof -
  have "unat a < 2 ^ 32" "unat b < 2 ^ 32" by (rule unat_wid_bound)+
  then have "2 ^ 32 - 1 - unat a < 2 ^ 32 - 1 - unat b \<longleftrightarrow> unat b < unat a" by linarith
  then show ?thesis
    by (simp only: compare_be_value length_be_bytes be_value_wid word_less_nat_alt)
qed

lemma compare_EncodeDocHybridTime:
  "compare (EncodeDocHybridTime a) (EncodeDocHybridTime b) < 0 \<longleftrightarrow> dht_less b a"
proof -
  have "compare (EncodeDocHybridTime a) (EncodeDocHybridTime b)
      = (if hybrid_time a = hybrid_time b
         then compare (be_bytes 4 (2 ^ 32 - 1 - unat (write_id a)))
                      (be_bytes 4 (2 ^ 32 - 1 - unat (write_id b)))
         else compare (be_bytes 8 (2 ^ 64 - 1 - unat (hybrid_time a)))
                      (be_bytes 8 (2 ^ 64 - 1 - unat (hybrid_time b))))"
    unfolding EncodeDocHybridTime_def
    by (subst compare_append_eq_len) (simp_all only: length_be_bytes compare_time_bytes_eq)
  then show ?thesis
    by (auto simp only: compare_time_bytes compare_wid_bytes dht_less_def split: if_splits)
qed

lemma DecodeDocHybridTime_Encode [simp]: "DecodeDocHybridTime (EncodeDocHybridTime d) = d"
proof -
  have "unat (hybrid_time d) < 2 ^ 64" "unat (write_id d) < 2 ^ 32"
    by (rule unat_ht_bound, rule unat_wid_bound)
  then have "(of_nat (2 ^ 64 - 1 - (2 ^ 64 - 1 - unat (hybrid_time d))) :: HybridTime) = hybrid_time d"
    and "(of_nat (2 ^ 32 - 1 - (2 ^ 32 - 1 - unat (write_id d))) :: IntraTxnWriteId) = write_id d"
    by simp_all
  moreover have "take 8 (EncodeDocHybridTime d) = be_bytes 8 (2 ^ 64 - 1 - unat (hybrid_time d))"
    and "drop 8 (EncodeDocHybridTime d) = be_bytes 4 (2 ^ 32 - 1 - unat (write_id d))"
    by (simp_all add: EncodeDocHybridTime_def)
  ultimately show ?thesis
    by (simp only: DecodeDocHybridTime_def be_value_time be_value_wid) simp
qed

lemma DecodeFromEnd_Append [simp]:
  "DecodeFromEnd (AppendDocHybridTime d k) = Inr d"
  by (simp add: DecodeFromEnd_def AppendDocHybridTime_def kBytesPerDocHybridTime_def)

lemma write_id_le_max: "(w :: IntraTxnWriteId) \<le> kMaxWriteId"
proof -
  have "unat w < 2 ^ 32" by (rule unat_wid_bound)
  then show ?thesis by (simp add: kMaxWriteId_def word_le_nat_alt)
qed

lemma dht_less_read_time:
  "dht_less \<lparr>hybrid_time = rt, write_id = kMaxWriteId\<rparr> d \<longleftrightarrow> rt < hybrid_time d"
  using write_id_le_max [of "write_id d"] by (auto simp: dht_less_def)

lemma dht_less_asym: "dht_less a b \<Longrightarrow> \<not> dht_less b a"
  by (auto simp: dht_less_def)

lemma compare_Append:
  "compare (AppendDocHybridTime a k) (AppendDocHybridTime b k)
     = compare (EncodeDocHybridTime a) (EncodeDocHybridTime b)"
  by (simp add: AppendDocHybridTime_def compare_append_same)

lemma version_before_probe:
  "compare (AppendDocHybridTime d k)
           (AppendDocHybridTime \<lparr>hybrid_time = rt, write_id = kMaxWriteId\<rparr> k) < 0
     \<longleftrightarrow> rt < hybrid_time d"
  by (simp only: compare_Append compare_EncodeDocHybridTime dht_less_read_time)

lemma version_of_Append [simp]: "version_of k (AppendDocHybridTime d k, v) = d"
  by (simp add: version_of_def AppendDocHybridTime_def)

lemma ReplaceLastHybridTimeForSeek_advances:
  assumes "DecodeFromEnd k = Inr d" and "ht < hybrid_time d"
    and "ReplaceLastHybridTimeForSeek ht k = Inr k'"
  shows "compare k k' < 0"
proof -
  define n where "n = length k - 12"
  define x8 where "x8 = take 8 (drop n k)"
  define x4 where "x4 = drop 8 (drop n k)"
  let ?y8 = "be_bytes 8 (2 ^ 64 - 1 - unat ht)"
  let ?y4 = "be_bytes 4 (2 ^ 32 - 1 - unat kMaxWriteId)"
  from assms(1) have len: "12 \<le> length k" and d: "d = DecodeDocHybridTime (drop n k)"
    by (auto simp: DecodeFromEnd_def kBytesPerDocHybridTime_def n_def split: if_splits)
  have "drop n k = x8 @ x4" by (simp only: x8_def x4_def append_take_drop_id)
  then have k: "k = take n k @ x8 @ x4" using append_take_drop_id [of n k] by simp
  have k': "k' = take n k @ ?y8 @ ?y4"
    using assms(3) len
    by (auto simp: ReplaceLastHybridTimeForSeek_def kBytesPerDocHybridTime_def n_def
        EncodeDocHybridTime_def split: if_splits)
  have l8: "length x8 = 8" using len by (simp add: x8_def n_def)
  have bv: "be_value x8 < 2 ^ 64" using be_value_bound [of x8] l8 by simp
  have "hybrid_time d = of_nat (2 ^ 64 - 1 - be_value x8)"
    by (simp add: d DecodeDocHybridTime_def x8_def)
  then have "unat (hybrid_time d) = (2 ^ 64 - 1 - be_value x8) mod 2 ^ 64"
    by (simp only: unat_of_nat) simp
  then have "unat (hybrid_time d) = 2 ^ 64 - 1 - be_value x8" by simp
  moreover have "unat ht < unat (hybrid_time d)" using assms(2) by (simp add: word_less_nat_alt)
  ultimately have "be_value x8 < 2 ^ 64 - 1 - unat ht" by linarith
  then have "be_value x8 < be_value ?y8" by (simp only: be_value_time)
  then have lt: "compare x8 ?y8 < 0" using l8 by (subst compare_be_value) simp_all
  have "compare k k' = compare (x8 @ x4) (?y8 @ ?y4)"
    by (subst k, subst k') (rule compare_append_same)
  also have "\<dots> = compare x8 ?y8" using lt l8 by (simp add: compare_append_eq_len)
  finally show ?thesis using lt by simp
qed

text \<open>
  Rewrite rules that let the simplifier compute the codec on concrete inputs.
\<close>

lemma be_bytes_4: "be_bytes 4 x = [of_nat (x div 256 ^ 3 mod 256), of_nat (x div 256 ^ 2 mod 256),
     of_nat (x div 256 mod 256), of_nat (x mod 256)]"
proof -
  have "(4::nat) = Suc (Suc (Suc (Suc 0)))" by simp
  then show ?thesis by (simp only: be_bytes.simps) simp
qed

lemma be_bytes_8: "be_bytes 8 x = [of_nat (x div 256 ^ 7 mod 256), of_nat (x div 256 ^ 6 mod 256),
     of_nat (x div 256 ^ 5 mod 256), of_nat (x div 256 ^ 4 mod 256),
     of_nat (x div 256 ^ 3 mod 256), of_nat (x div 256 ^ 2 mod 256),
     of_nat (x div 256 mod 256), of_nat (x mod 256)]"
proof -
  have "(8::nat) = Suc (Suc (Suc (Suc (Suc (Suc (Suc (Suc 0)))))))" by simp
  then show ?thesis by (simp only: be_bytes.simps) simp
qed

lemmas codec_eval = AppendDocHybridTime_def EncodeDocHybridTime_def be_bytes_4 be_bytes_8
  kHybridTime_def kMaxWriteId_def

lemmas iter_eval = fresh_iterator_def PerformRocksDBSeek_def Valid_def key_def iter_value_def
  Seek_def lower_bound_def starts_with_def

lemmas docdb_eval = SeekToValidKvAtTs_def seek_to_valid_loop.simps after_loop_def
  iter_eval codec_eval DecodeFromEnd_def DecodeDocHybridTime_def kBytesPerDocHybridTime_def
  FullyDecodeFrom_def DecodeTTL_def Value_Decode_def kTtl_def kMaxTtl_def
  ReplaceLastHybridTimeForSeek_def

lemma example_versions_bytes:
  "example_versions =
     [([65, 35, 255, 255, 255, 255, 255, 255, 255, 235, 255, 255, 255, 255], [83, 3]),
      ([65, 35, 255, 255, 255, 255, 255, 255, 255, 245, 255, 255, 255, 255], [83, 2]),
      ([65, 35, 255, 255, 255, 255, 255, 255, 255, 250, 255, 255, 255, 255], [83, 1])]"
  by (simp add: example_versions_def codec_eval)

lemma example_subdocument_bytes:
  "example_subdocument =
     [([65, 66, 35, 255, 255, 255, 255, 255, 255, 255, 235, 255, 255, 255, 255], [83, 1]),
      ([65, 67, 35, 255, 255, 255, 255, 255, 255, 255, 245, 255, 255, 255, 255], [83, 2])]"
  by (simp add: example_subdocument_def codec_eval)


section \<open>The SubDocKey encoding preserves the order\<close>

lemma compare_no_prefix_append:
  "\<not> starts_with u v \<Longrightarrow> \<not> starts_with v u \<Longrightarrow> compare (u @ x) (v @ y) = compare u v"
proof (induction u v rule: compare.induct)
  case (4 a u b v)
  then show ?case by (auto simp: starts_with_def)
qed (auto simp: starts_with_def)

lemma compare_encoded_distinct:
  assumes "prefix_free enc" and "a \<noteq> b"
  shows "compare (enc a @ x) (enc b @ y) = compare (enc a) (enc b)"
proof (rule compare_no_prefix_append)
  show "\<not> starts_with (enc a) (enc b)" using assms by (auto simp: prefix_free_def)
  show "\<not> starts_with (enc b) (enc a)" using assms by (auto simp: prefix_free_def)
qed

lemma order_preserving_iff:
  fixes enc :: "'a::linorder \<Rightarrow> slice"
  assumes "order_preserving enc"
  shows "compare (enc a) (enc b) < 0 \<longleftrightarrow> a < b"
proof
  assume "a < b"
  then show "compare (enc a) (enc b) < 0" using assms by (simp add: order_preserving_def)
next
  assume lt: "compare (enc a) (enc b) < 0"
  show "a < b"
  proof (rule ccontr)
    assume "\<not> a < b"
    then consider "a = b" | "b < a" by fastforce
    then show False
    proof cases
      case 1
      then show False using lt by (simp add: compare_eq_0 [THEN iffD2])
    next
      case 2
      then have "compare (enc b) (enc a) < 0" using assms by (simp add: order_preserving_def)
      then show False using lt compare_antisym [of "enc a" "enc b"] by simp
    qed
  qed
qed

lemma above_marker_Cons:
  assumes "above_marker enc"
  obtains h t where "enc x = h # t" and "kHybridTime < h"
proof -
  from assms have "enc x \<noteq> []" and "kHybridTime < hd (enc x)"
    by (simp_all add: above_marker_def)
  then show thesis using that [of "hd (enc x)" "tl (enc x)"] by simp
qed

lemma compare_time_suffix:
  "compare (time_suffix a) (time_suffix b) < 0 \<longleftrightarrow> time_precedes a b"
  by (simp add: time_suffix_def time_precedes_def compare_EncodeDocHybridTime)

lemma compare_paths:
  fixes enc :: "'c::linorder \<Rightarrow> slice"
  assumes "order_preserving enc" and "prefix_free enc" and "above_marker enc"
  shows "compare (concat (map enc xs) @ time_suffix a) (concat (map enc ys) @ time_suffix b) < 0
     \<longleftrightarrow> path_precedes xs ys \<or> (xs = ys \<and> time_precedes a b)"
proof (induction xs ys rule: path_precedes.induct)
  case 1
  then show ?case by (simp add: compare_time_suffix)
next
  case (2 y ys)
  obtain h t where e: "enc y = h # t" and h: "kHybridTime < h"
    using assms(3) by (rule above_marker_Cons)
  show ?case by (simp add: e time_suffix_def h)
next
  case (3 x xs)
  obtain h t where e: "enc x = h # t" and h: "kHybridTime < h"
    using assms(3) by (rule above_marker_Cons)
  show ?case using h by (auto simp: e time_suffix_def)
next
  case (4 x xs y ys)
  show ?case
  proof (cases "x = y")
    case True
    then show ?thesis using 4 by (simp add: compare_append_same)
  next
    case False
    then have "compare (enc x @ concat (map enc xs) @ time_suffix a)
                       (enc y @ concat (map enc ys) @ time_suffix b) = compare (enc x) (enc y)"
      using assms(2) by (intro compare_encoded_distinct)
    then show ?thesis using False order_preserving_iff [OF assms(1), of x y] by simp
  qed
qed

text \<open>
  Claim C6. For encoders of the DocKey and of the sub-path components that preserve the
  order and delimit themselves, the component encodings starting above the timestamp
  marker, the SubDocKey encoding is strictly order-preserving: for every two SubDocKeys
  \<open>a\<close> and \<open>b\<close> the encoding of \<open>a\<close> is below the encoding of \<open>b\<close> in byte order if
  and only if \<open>a\<close> precedes \<open>b\<close> in the order by DocKey, then sub-path, then reverse
  DocHybridTime. Iterating the encoded keys in byte order so visits a document before its
  sub-documents and the versions of one key most recent first.
\<close>

theorem Encode_order_preserving:
  fixes enc_doc_key :: "'d::linorder \<Rightarrow> slice" and enc_subkey :: "'c::linorder \<Rightarrow> slice"
  assumes "order_preserving enc_doc_key" and "prefix_free enc_doc_key"
    and "order_preserving enc_subkey" and "prefix_free enc_subkey" and "above_marker enc_subkey"
  shows "compare (Encode enc_doc_key enc_subkey a True) (Encode enc_doc_key enc_subkey b True) < 0
     \<longleftrightarrow> SubDocKey_precedes a b"
proof -
  have enc: "Encode enc_doc_key enc_subkey k True
      = enc_doc_key (fst (path k)) @ concat (map enc_subkey (snd (path k))) @ time_suffix k" for k
    by (simp add: Encode_def time_suffix_def)
  show ?thesis
  proof (cases "fst (path a) = fst (path b)")
    case True
    then show ?thesis
      using compare_paths [OF assms(3-5), of "snd (path a)" a "snd (path b)" b]
      by (simp add: enc compare_append_same SubDocKey_precedes_def)
  next
    case False
    then have "compare (Encode enc_doc_key enc_subkey a True) (Encode enc_doc_key enc_subkey b True)
        = compare (enc_doc_key (fst (path a))) (enc_doc_key (fst (path b)))"
      unfolding enc using assms(2) by (intro compare_encoded_distinct)
    then show ?thesis
      using False order_preserving_iff [OF assms(1), of "fst (path a)" "fst (path b)"]
      by (simp add: SubDocKey_precedes_def)
  qed
qed

text \<open>
  With the example encoders: the version written at time 10 comes before the one written
  at time 5, and the element \<open>[1]\<close> before its sub-element \<open>[1, 2]\<close> whatever their times.
\<close>

theorem Encode_order_preserving_witness:
  "order_preserving example_enc_doc_key \<and> prefix_free example_enc_doc_key
   \<and> order_preserving example_enc_subkey \<and> prefix_free example_enc_subkey
   \<and> above_marker example_enc_subkey
   \<and> SubDocKey_precedes (example_key [1, 2] 10) (example_key [1, 2] 5)
   \<and> compare (Encode example_enc_doc_key example_enc_subkey (example_key [1, 2] 10) True)
              (Encode example_enc_doc_key example_enc_subkey (example_key [1, 2] 5) True) < 0
   \<and> SubDocKey_precedes (example_key [1] 5) (example_key [1, 2] 10)
   \<and> compare (Encode example_enc_doc_key example_enc_subkey (example_key [1] 5) True)
              (Encode example_enc_doc_key example_enc_subkey (example_key [1, 2] 10) True) < 0"
proof -
  have h1: "order_preserving example_enc_doc_key"
    by (simp add: order_preserving_def example_enc_doc_key_def)
  have h2: "prefix_free example_enc_doc_key"
    by (simp add: prefix_free_def example_enc_doc_key_def starts_with_def)
  have h3: "order_preserving example_enc_subkey"
    by (simp add: order_preserving_def example_enc_subkey_def)
  have h4: "prefix_free example_enc_subkey"
    by (simp add: prefix_free_def example_enc_subkey_def starts_with_def)
  have h5: "above_marker example_enc_subkey"
    by (simp add: above_marker_def example_enc_subkey_def kHybridTime_def)
  have p1: "SubDocKey_precedes (example_key [1, 2] 10) (example_key [1, 2] 5)"
    by (simp add: SubDocKey_precedes_def example_key_def time_precedes_def dht_less_def)
  have p2: "SubDocKey_precedes (example_key [1] 5) (example_key [1, 2] 10)"
    by (simp add: SubDocKey_precedes_def example_key_def)
  note general = Encode_order_preserving [OF h1 h2 h3 h4 h5]
  show ?thesis
    using h1 h2 h3 h4 h5 p1 p2
      general [of "example_key [1, 2] 10" "example_key [1, 2] 5"]
      general [of "example_key [1] 5" "example_key [1, 2] 10"]
    by simp
qed


section \<open>SeekToValidKvAtTs\<close>

lemma FullyDecodeFrom_version:
  "dec (AppendDocHybridTime d k) = Some (p, length k) \<Longrightarrow>
     FullyDecodeFrom dec (AppendDocHybridTime d k) True
       = Inr \<lparr>path = p, has_hybrid_time = True, doc_ht = d\<rparr>"
  by (simp add: FullyDecodeFrom_def) (simp add: AppendDocHybridTime_def kBytesPerDocHybridTime_def)

lemma DecodeTTL_no_ttl: "no_ttl v \<Longrightarrow> DecodeTTL v = Inr (kMaxTtl, v)"
  by (cases v) (auto simp: no_ttl_def DecodeTTL_def)

lemma Value_Decode_no_ttl:
  "no_ttl v \<Longrightarrow> Value_Decode v = Inr \<lparr>type_tag = hd v, payload = tl v, ttl = kMaxTtl\<rparr>"
  by (cases v) (auto simp: Value_Decode_def DecodeTTL_no_ttl no_ttl_def)

lemma loop_break:
  assumes "Valid (PerformRocksDBSeek m it probe)"
    and "starts_with (key (PerformRocksDBSeek m it probe)) sk"
    and "DecodeFromEnd (key (PerformRocksDBSeek m it probe)) = Inr d"
    and "hybrid_time d \<le> rt"
  shows "seek_to_valid_loop m sk rt probe it = Some (PerformRocksDBSeek m it probe, Break)"
  using assms by (subst seek_to_valid_loop.simps) (auto simp: Let_def)

text \<open>
  Each call of \<open>PerformRocksDBSeek\<close> issues at most \<open>max_nexts + 1\<close> native calls.
\<close>

lemma seek_loop_calls_bound:
  "n \<le> m + 1 \<Longrightarrow> length (calls (seek_loop m k n it)) \<le> length (calls it) + nat (m + 1 - n)"
proof (induction m k n it rule: seek_loop.induct)
  case (1 m k n it)
  show ?case
  proof (cases "n \<le> m \<and> \<not> (\<not> Valid it \<or> compare (key it) k \<ge> 0)")
    case False
    then show ?thesis by (subst seek_loop.simps) auto
  next
    case True
    then have nm: "n \<le> m" and v: "Valid it" and lt: "compare (key it) k < 0" by auto
    show ?thesis
    proof (cases "n < m")
      case lt_m: True
      have "length (calls (seek_loop m k (n + 1) (Next it)))
          \<le> length (calls (Next it)) + nat (m + 1 - (n + 1))"
        using "1.IH"(1) nm v lt lt_m by simp
      moreover have "length (calls (Next it)) = length (calls it) + 1" by (simp add: Next_def)
      moreover have "1 + nat (m + 1 - (n + 1)) = nat (m + 1 - n)" using lt_m by simp
      ultimately have "length (calls (seek_loop m k (n + 1) (Next it)))
          \<le> length (calls it) + nat (m + 1 - n)" by linarith
      then show ?thesis using nm v lt lt_m by (subst seek_loop.simps) simp
    next
      case False
      with nm have e: "n = m" by simp
      have "seek_loop m k n it = Seek k it" using seek_loop_last_seek [OF v lt, of m] e by simp
      then show ?thesis using e by (simp add: Seek_def)
    qed
  qed
qed

lemma PerformRocksDBSeek_calls_bound:
  assumes "0 \<le> m"
  shows "length (calls (PerformRocksDBSeek m it k)) \<le> length (calls it) + (nat m + 1)"
proof -
  have "length (calls (seek_loop m k 0 it)) \<le> length (calls it) + nat (m + 1 - 0)"
    using assms by (intro seek_loop_calls_bound) simp
  moreover have "nat (m + 1 - 0) = nat m + 1" using assms by simp
  ultimately show ?thesis
    by (simp add: PerformRocksDBSeek_def SeekToFirst_def Seek_def)
qed

text \<open>
  The loop returns, by induction on the number of entries from the landing position of the
  seek to the end of the keyspace: when an iteration does not exit, the next seek key is
  greater than the key found, so the next seek lands further on.
\<close>

lemma seek_to_valid_loop_returns:
  assumes "keyspace_sorted (entries it)" and "0 \<le> m"
  shows "\<exists>it' x. seek_to_valid_loop m sk ht probe it = Some (it', x)
           \<and> length (calls it') \<le> length (calls it)
                + (length (entries it) - lower_bound (entries it) probe + 1) * (nat m + 1)"
  using assms(1)
proof (induction "length (entries it) - lower_bound (entries it) probe"
    arbitrary: probe it rule: less_induct)
  case less
  define it1 where "it1 = PerformRocksDBSeek m it probe"
  define M where "M = length (entries it) - lower_bound (entries it) probe"
  have p1: "pos it1 = lower_bound (entries it) probe"
    unfolding it1_def using less.prems assms(2) by (rule PerformRocksDBSeek_pos)
  have e1: "entries it1 = entries it" by (simp add: it1_def PerformRocksDBSeek_entries)
  have c1: "length (calls it1) \<le> length (calls it) + (nat m + 1)"
    unfolding it1_def using assms(2) by (rule PerformRocksDBSeek_calls_bound)
  have one: "length (calls it1) \<le> length (calls it) + (M + 1) * (nat m + 1)"
  proof -
    have "nat m + 1 \<le> (M + 1) * (nat m + 1)" by simp
    with c1 show ?thesis by linarith
  qed
  have exit: ?case if "seek_to_valid_loop m sk ht probe it = Some (it1, x)" for x
    using that one by (auto simp: M_def)
  show ?case
  proof (cases "\<not> Valid it1 \<or> \<not> starts_with (key it1) sk")
    case True
    then have "seek_to_valid_loop m sk ht probe it = Some (it1, ReturnedNotFound)"
      by (subst seek_to_valid_loop.simps) (auto simp: it1_def Let_def)
    then show ?thesis by (rule exit)
  next
    case False
    then have v: "Valid it1" and sw: "starts_with (key it1) sk" by auto
    show ?thesis
    proof (cases "DecodeFromEnd (key it1)")
      case (Inl e)
      then have "seek_to_valid_loop m sk ht probe it = Some (it1, ReturnedError e)"
        using False by (subst seek_to_valid_loop.simps) (auto simp: it1_def Let_def)
      then show ?thesis by (rule exit)
    next
      case (Inr d)
      show ?thesis
      proof (cases "hybrid_time d \<le> ht")
        case True
        then have "seek_to_valid_loop m sk ht probe it = Some (it1, Break)"
          using False Inr by (subst seek_to_valid_loop.simps) (auto simp: it1_def Let_def)
        then show ?thesis by (rule exit)
      next
        case newer: False
        show ?thesis
        proof (cases "ReplaceLastHybridTimeForSeek ht (key it1)")
          case (Inl e)
          then have "seek_to_valid_loop m sk ht probe it = Some (it1, ReturnedError e)"
            using False Inr newer
            by (subst seek_to_valid_loop.simps) (auto simp: it1_def Let_def)
          then show ?thesis by (rule exit)
        next
          case (Inr probe')
          define M' where "M' = length (entries it1) - lower_bound (entries it1) probe'"
          have adv: "compare (key it1) probe' < 0"
            using \<open>DecodeFromEnd (key it1) = Inr d\<close> newer Inr
            by (intro ReplaceLastHybridTimeForSeek_advances [of "key it1" d ht probe']) auto
          have "pos it1 + 1 \<le> lower_bound (entries it1) probe'"
          proof (rule lower_bound_geI)
            show "pos it1 + 1 \<le> length (entries it1)" using v by (simp add: Valid_def)
            fix i assume "i < pos it1 + 1"
            then have "i < pos it1 \<or> i = pos it1" by auto
            then show "compare (fst (entries it1 ! i)) probe' < 0"
            proof
              assume "i < pos it1"
              then show ?thesis
                using before_pos_less [of it1 probe' i] less.prems e1 v adv by simp
            next
              assume "i = pos it1"
              then show ?thesis using adv by (simp add: key_def)
            qed
          qed
          moreover have "pos it1 < length (entries it1)" using v by (simp add: Valid_def)
          ultimately have dec: "M' < M" using p1 e1 by (simp add: M_def M'_def)
          have "keyspace_sorted (entries it1)" using less.prems e1 by simp
          with dec obtain it' x where r: "seek_to_valid_loop m sk ht probe' it1 = Some (it', x)"
            and b: "length (calls it') \<le> length (calls it1) + (M' + 1) * (nat m + 1)"
            using less.hyps [of it1 probe'] by (auto simp: M_def M'_def)
          have "(M' + 1) * (nat m + 1) + (nat m + 1) = (M' + 2) * (nat m + 1)" by simp
          moreover have "(M' + 2) * (nat m + 1) \<le> (M + 1) * (nat m + 1)"
            using dec by (intro mult_le_mono1) simp
          ultimately have "length (calls it') \<le> length (calls it) + (M + 1) * (nat m + 1)"
            using b c1 by linarith
          moreover have "seek_to_valid_loop m sk ht probe it = Some (it', x)"
            using False \<open>DecodeFromEnd (key it1) = Inr d\<close> newer Inr r
            by (subst seek_to_valid_loop.simps) (auto simp: it1_def Let_def)
          ultimately show ?thesis by (auto simp: M_def)
        qed
      qed
    qed
  qed
qed

text \<open>
  A state in which the loop does not return: the seek leaves the iterator as it is, at a key
  under the search key that is newer than the read time, and the rewritten seek key is the
  one the iteration started with. Every iteration then repeats the one before.
\<close>

lemma seek_to_valid_loop_stuck:
  assumes same: "PerformRocksDBSeek m it probe = it"
    and v: "Valid it" and sw: "starts_with (key it) sk"
    and d: "DecodeFromEnd (key it) = Inr d" and newer: "ht < hybrid_time d"
    and r: "ReplaceLastHybridTimeForSeek ht (key it) = Inr probe"
  shows "seek_to_valid_loop m sk ht probe it = None"
proof (rule ccontr)
  assume "seek_to_valid_loop m sk ht probe it \<noteq> None"
  then obtain y where some: "seek_to_valid_loop m sk ht probe it = Some y" by auto
  have nle: "\<not> hybrid_time d \<le> ht" using newer by simp
  have "\<not> (m = m \<and> sk = sk \<and> ht = ht \<and> probe = probe \<and> it = it)"
  proof (rule seek_to_valid_loop.raw_induct
      [where P = "\<lambda>m' sk' ht' probe' it' y'.
                    \<not> (m' = m \<and> sk' = sk \<and> ht' = ht \<and> probe' = probe \<and> it' = it)",
       OF _ some])
    fix f m' sk' ht' probe' it' y'
    assume IH: "\<And>m' sk' ht' probe' it' y'. f m' sk' ht' probe' it' = Some y' \<Longrightarrow>
                  \<not> (m' = m \<and> sk' = sk \<and> ht' = ht \<and> probe' = probe \<and> it' = it)"
      and body: "(let it1 = PerformRocksDBSeek m' it' probe' in
                  if \<not> Valid it1 \<or> \<not> starts_with (key it1) sk' then Some (it1, ReturnedNotFound)
                  else (case DecodeFromEnd (key it1) of
                          Inl e \<Rightarrow> Some (it1, ReturnedError e)
                        | Inr ht_from_found_key \<Rightarrow>
                            if hybrid_time ht_from_found_key \<le> ht' then Some (it1, Break)
                            else (case ReplaceLastHybridTimeForSeek ht' (key it1) of
                                    Inl e \<Rightarrow> Some (it1, ReturnedError e)
                                  | Inr seek_key_bytes' \<Rightarrow> f m' sk' ht' seek_key_bytes' it1)))
                 = Some y'"
    show "\<not> (m' = m \<and> sk' = sk \<and> ht' = ht \<and> probe' = probe \<and> it' = it)"
    proof
      assume "m' = m \<and> sk' = sk \<and> ht' = ht \<and> probe' = probe \<and> it' = it"
      then have eqs: "m' = m" "sk' = sk" "ht' = ht" "probe' = probe" "it' = it" by simp_all
      from body have "f m sk ht probe it = Some y'"
        unfolding eqs by (simp add: Let_def same v sw d nle r)
      then show False using IH by blast
    qed
  qed
  then show False by simp
qed

text \<open>
  However the loop returns, it leaves the iterator over the same entries and in the state
  of its exit.
\<close>

lemma ReplaceLastHybridTimeForSeek_Inl:
  "ReplaceLastHybridTimeForSeek ht k = Inl e \<Longrightarrow> DecodeFromEnd k = Inl e"
  by (auto simp: ReplaceLastHybridTimeForSeek_def DecodeFromEnd_def split: if_splits)

lemma seek_to_valid_loop_exit:
  assumes "seek_to_valid_loop m sk ht probe it = Some y"
  shows "entries (fst y) = entries it \<and> exit_state sk ht (fst y) (snd y)"
proof (rule seek_to_valid_loop.raw_induct
    [where P = "\<lambda>m' sk' ht' probe' it' y'.
                  entries (fst y') = entries it' \<and> exit_state sk' ht' (fst y') (snd y')",
     OF _ assms])
  fix f m' sk' ht' probe' it' y'
  assume IH: "\<And>m' sk' ht' probe' it' y'. f m' sk' ht' probe' it' = Some y' \<Longrightarrow>
                entries (fst y') = entries it' \<and> exit_state sk' ht' (fst y') (snd y')"
    and body: "(let it1 = PerformRocksDBSeek m' it' probe' in
                if \<not> Valid it1 \<or> \<not> starts_with (key it1) sk' then Some (it1, ReturnedNotFound)
                else (case DecodeFromEnd (key it1) of
                        Inl e \<Rightarrow> Some (it1, ReturnedError e)
                      | Inr ht_from_found_key \<Rightarrow>
                          if hybrid_time ht_from_found_key \<le> ht' then Some (it1, Break)
                          else (case ReplaceLastHybridTimeForSeek ht' (key it1) of
                                  Inl e \<Rightarrow> Some (it1, ReturnedError e)
                                | Inr seek_key_bytes' \<Rightarrow> f m' sk' ht' seek_key_bytes' it1)))
               = Some y'"
  define it1 where "it1 = PerformRocksDBSeek m' it' probe'"
  have e1: "entries it1 = entries it'" by (simp add: it1_def PerformRocksDBSeek_entries)
  note b = body [unfolded Let_def, folded it1_def]
  show "entries (fst y') = entries it' \<and> exit_state sk' ht' (fst y') (snd y')"
  proof (cases "\<not> Valid it1 \<or> \<not> starts_with (key it1) sk'")
    case True
    with b have "y' = (it1, ReturnedNotFound)" by auto
    then show ?thesis using True e1 by (auto simp: exit_state_def)
  next
    case False
    show ?thesis
    proof (cases "DecodeFromEnd (key it1)")
      case (Inl e)
      with b False have "y' = (it1, ReturnedError e)" by auto
      then show ?thesis using False Inl e1 by (auto simp: exit_state_def)
    next
      case (Inr d)
      show ?thesis
      proof (cases "hybrid_time d \<le> ht'")
        case True
        with b False Inr have "y' = (it1, Break)" by auto
        then show ?thesis using False Inr True e1 by (auto simp: exit_state_def)
      next
        case newer: False
        show ?thesis
        proof (cases "ReplaceLastHybridTimeForSeek ht' (key it1)")
          case (Inl e)
          then have "DecodeFromEnd (key it1) = Inl e" by (rule ReplaceLastHybridTimeForSeek_Inl)
          with Inr show ?thesis by simp
        next
          case r: (Inr probe'')
          with b False Inr newer have "f m' sk' ht' probe'' it1 = Some y'" by auto
          then have "entries (fst y') = entries it1 \<and> exit_state sk' ht' (fst y') (snd y')"
            by (rule IH)
          then show ?thesis using e1 by simp
        qed
      qed
    qed
  qed
qed

lemma after_loop_iter [simp]: "iter (after_loop dec ht fk0 fv0 it) = it"
  by (simp add: after_loop_def split: sum.splits prod.splits)

text \<open>
  Claim C5, as amended. Over an ordered keyspace, which is a finite list of entries, and for
  a flag \<open>max_nexts_to_avoid_seek\<close> that is not negative, \<open>SeekToValidKvAtTs\<close>
  returns, whatever the state of the iterator, and by then the engine has
  received at most \<open>(n + 1) * (max_nexts + 1)\<close> native calls, \<open>n\<close> the number of
  entries: its loop ends after finitely many seeks. The reason is the second statement:
  whenever an iteration does not exit, the key found ends in a timestamp newer than the
  read time, and the next seek key, that key with its trailing timestamp replaced by the
  read time through \<open>ReplaceLastHybridTimeForSeek\<close>, is strictly greater than the key
  found, so that each seek lands strictly after the previous one.
\<close>

theorem SeekToValidKvAtTs_terminates:
  fixes dec :: "'p path_decoder"
  assumes "keyspace_sorted (entries it)" and "0 \<le> max_nexts"
  shows "(\<exists>r. SeekToValidKvAtTs dec max_nexts it sk rt fk0 fv0 = Some r
            \<and> length (calls (iter r))
                \<le> length (calls it) + (length (entries it) + 1) * (nat max_nexts + 1))
       \<and> (\<forall>k d k'. DecodeFromEnd k = Inr d \<and> rt < hybrid_time d
                   \<and> ReplaceLastHybridTimeForSeek rt k = Inr k' \<longrightarrow> compare k k' < 0)"
proof
  let ?probe = "AppendDocHybridTime \<lparr>hybrid_time = rt, write_id = kMaxWriteId\<rparr> sk"
  obtain it1 x where l: "seek_to_valid_loop max_nexts sk rt ?probe it = Some (it1, x)"
    and b: "length (calls it1) \<le> length (calls it)
              + (length (entries it) - lower_bound (entries it) ?probe + 1) * (nat max_nexts + 1)"
    using seek_to_valid_loop_returns [OF assms] by blast
  have "(length (entries it) - lower_bound (entries it) ?probe + 1) * (nat max_nexts + 1)
      \<le> (length (entries it) + 1) * (nat max_nexts + 1)"
    by (intro mult_le_mono1) simp
  with b have b': "length (calls it1)
      \<le> length (calls it) + (length (entries it) + 1) * (nat max_nexts + 1)" by linarith
  show "\<exists>r. SeekToValidKvAtTs dec max_nexts it sk rt fk0 fv0 = Some r
            \<and> length (calls (iter r))
                \<le> length (calls it) + (length (entries it) + 1) * (nat max_nexts + 1)"
    using l b' by (cases x) (simp_all add: SeekToValidKvAtTs_def)
  show "\<forall>k d k'. DecodeFromEnd k = Inr d \<and> rt < hybrid_time d
                   \<and> ReplaceLastHybridTimeForSeek rt k = Inr k' \<longrightarrow> compare k k' < 0"
    using ReplaceLastHybridTimeForSeek_advances by blast
qed

text \<open>
  On the example of the source comment, read at time 15: the first seek finds \<open>a.b\<close>
  written at 20, too new; the second, issued from the rewritten key, finds \<open>a.c\<close>
  written at 10, and the function returns it after two engine calls.
\<close>

theorem SeekToValidKvAtTs_terminates_witness:
  "keyspace_sorted (entries (fresh_iterator example_subdocument)) \<and> (0::int) \<le> 8
   \<and> map_option (\<lambda>r. (status r, is_found r, found_key r, pos (iter r), length (calls (iter r))))
        (SeekToValidKvAtTs two_byte_path_decoder 8 (fresh_iterator example_subdocument) [65] 15
           no_key Tombstone)
      = Some (OK, True, \<lparr>path = [65, 67], has_hybrid_time = True,
                          doc_ht = \<lparr>hybrid_time = 10, write_id = 0\<rparr>\<rparr>, 1, 2)"
proof -
  have h1: "keyspace_sorted (entries (fresh_iterator example_subdocument))"
    by (simp add: fresh_iterator_def example_subdocument_bytes keyspace_sorted_def)
  have h2: "(0::int) \<le> 8" by simp
  note general = SeekToValidKvAtTs_terminates
    [OF h1 h2, of two_byte_path_decoder "[65]" 15 no_key Tombstone]
  show ?thesis using general h1
    by (simp add: docdb_eval example_subdocument_bytes two_byte_path_decoder_def Next_def
        seek_loop.simps)
qed

text \<open>
  The claim as stated, for every finite keyspace whatever the flag, fails when the flag is
  negative. On the example of the source comment, read at time 15 with the flag at
  \<open>-1\<close>: the first seek, issued on an iterator that is not positioned yet, finds \<open>a.b\<close>
  written at 20; the rewritten seek key is greater than that key, but \<open>PerformRocksDBSeek\<close>
  now neither steps nor seeks, the iterator stays at \<open>a.b\<close>, and the loop repeats this
  iteration for ever: the function does not return.
\<close>

theorem SeekToValidKvAtTs_negative_flag_counterexample:
  "SeekToValidKvAtTs two_byte_path_decoder (-1) (fresh_iterator example_subdocument) [65] 15
     no_key Tombstone = None"
proof -
  let ?probe0 = "AppendDocHybridTime \<lparr>hybrid_time = 15, write_id = kMaxWriteId\<rparr> [65]"
  let ?probe1 = "AppendDocHybridTime \<lparr>hybrid_time = 15, write_id = kMaxWriteId\<rparr> [65, 66]"
  let ?it1 = "\<lparr>entries = example_subdocument, pos = 0, calls = [CallSeek ?probe0]\<rparr>"
  have seek: "PerformRocksDBSeek (-1) (fresh_iterator example_subdocument) ?probe0 = ?it1"
    by (simp add: iter_eval codec_eval example_subdocument_bytes)
  have stay: "PerformRocksDBSeek (-1) ?it1 ?probe1 = ?it1"
    by (simp add: iter_eval codec_eval example_subdocument_bytes seek_loop.simps)
  have v: "Valid ?it1" and sw: "starts_with (key ?it1) [65]"
    by (simp_all add: iter_eval example_subdocument_bytes)
  have d: "DecodeFromEnd (key ?it1) = Inr \<lparr>hybrid_time = 20, write_id = 0\<rparr>"
    by (simp add: key_def example_subdocument_def)
  have newer: "(15 :: HybridTime) < hybrid_time \<lparr>hybrid_time = 20, write_id = 0\<rparr>" by simp
  have r: "ReplaceLastHybridTimeForSeek 15 (key ?it1) = Inr ?probe1"
    by (simp add: key_def example_subdocument_bytes ReplaceLastHybridTimeForSeek_def
        kBytesPerDocHybridTime_def codec_eval)
  have stuck: "seek_to_valid_loop (-1) [65] 15 ?probe1 ?it1 = None"
    using stay v sw d newer r by (rule seek_to_valid_loop_stuck)
  have "seek_to_valid_loop (-1) [65] 15 ?probe0 (fresh_iterator example_subdocument) = None"
    by (subst seek_to_valid_loop.simps) (simp add: seek Let_def v sw d r stuck)
  then show ?thesis by (simp add: SeekToValidKvAtTs_def)
qed

lemma after_loop_is_found [simp]: "is_found (after_loop dec ht fk0 fv0 it)"
  by (simp add: after_loop_def split: sum.splits prod.splits)

lemma starts_with_Append: "starts_with (AppendDocHybridTime d sk) (sk @ [kHybridTime])"
  by (simp add: AppendDocHybridTime_def starts_with_def)

lemma starts_with_shorter:
  assumes "starts_with k (p @ q)"
  shows "starts_with k p"
proof -
  from assms have t: "take (length (p @ q)) k = p @ q" and l: "length (p @ q) \<le> length k"
    by (simp_all add: starts_with_def)
  have "take (length p) k = take (length p) (take (length (p @ q)) k)" by (simp add: min_def)
  also have "\<dots> = take (length p) (p @ q)" by (simp only: t)
  also have "\<dots> = p" by simp
  finally show ?thesis using l by (simp add: starts_with_def)
qed

text \<open>A key that lies between two keys with a common prefix has that prefix.\<close>

lemma compare_between_prefix:
  assumes "starts_with a p" and "starts_with b p"
    and "compare a k \<le> 0" and "compare k b \<le> 0"
  shows "starts_with k p"
proof (rule ccontr)
  assume n: "\<not> starts_with k p"
  have a: "a = p @ drop (length p) a" and b: "b = p @ drop (length p) b"
    using assms(1,2) append_take_drop_id [of "length p" a] append_take_drop_id [of "length p" b]
    by (simp_all add: starts_with_def)
  have "compare k a = compare k p" by (subst a) (rule compare_not_prefix [OF n])
  moreover have "compare k b = compare k p" by (subst b) (rule compare_not_prefix [OF n])
  moreover have "compare k a \<ge> 0" using assms(3) compare_antisym [of k a] by simp
  ultimately have "compare k p = 0" using assms(4) by simp
  then have "k = p" by (simp add: compare_eq_0)
  with n show False by (simp add: starts_with_def)
qed

text \<open>
  When some version of the search key is visible at the read time, the first seek of the
  loop lands on the latest of them, and the function returns it.
\<close>

lemma SeekToValidKvAtTs_latest_aux:
  fixes dec :: "'p path_decoder"
  assumes sorted: "keyspace_sorted (entries it)" and m: "0 \<le> max_nexts"
    and vers: "\<And>e. e \<in> set (entries it) \<Longrightarrow> starts_with (fst e) (sk @ [kHybridTime]) \<Longrightarrow>
                 is_version sk e \<and> dec (fst e) = Some (p, length sk) \<and> no_ttl (snd e)"
    and mem0: "e0 \<in> set (entries it)" and vis0: "visible_version sk rt e0"
  shows "\<exists>r. SeekToValidKvAtTs dec max_nexts it sk rt fk0 fv0 = Some r \<and> status r = OK
           \<and> is_found r
           \<and> (\<exists>e \<in> set (entries it). visible_version sk rt e
                 \<and> (\<forall>e' \<in> set (entries it). visible_version sk rt e'
                       \<longrightarrow> \<not> dht_less (version_of sk e) (version_of sk e'))
                 \<and> found_key r = \<lparr>path = p, has_hybrid_time = True,
                                    doc_ht = version_of sk e\<rparr>
                 \<and> Value_Decode (snd e) = Inr (found_value r))"
proof -
  let ?es = "entries it"
  define probe where "probe = AppendDocHybridTime \<lparr>hybrid_time = rt, write_id = kMaxWriteId\<rparr> sk"
  define it1 where "it1 = PerformRocksDBSeek max_nexts it probe"
  define lb where "lb = lower_bound ?es probe"
  have p1: "pos it1 = lb"
    unfolding it1_def lb_def using sorted m by (rule PerformRocksDBSeek_pos)
  have e1: "entries it1 = ?es" by (simp add: it1_def PerformRocksDBSeek_entries)
  have key_of: "fst e = AppendDocHybridTime (version_of sk e) sk" if "is_version sk e" for e
    using that unfolding is_version_def .
  have cmp: "compare (fst e) probe < 0 \<longleftrightarrow> rt < hybrid_time (version_of sk e)"
    if "is_version sk e" for e
  proof -
    have "compare (fst e) probe = compare (AppendDocHybridTime (version_of sk e) sk) probe"
      using key_of [OF that] by simp
    then show ?thesis unfolding probe_def by (simp only: version_before_probe)
  qed
  have pre: "starts_with (fst e) (sk @ [kHybridTime])" if "is_version sk e" for e
    by (subst key_of [OF that]) (rule starts_with_Append)
  have not_before: "lb \<le> j" if "j < length ?es" "visible_version sk rt (?es ! j)" for j
  proof (rule ccontr)
    assume "\<not> lb \<le> j"
    then have "j < lb" by simp
    then have "compare (fst (?es ! j)) probe < 0" unfolding lb_def by (rule lower_bound_before)
    moreover have "is_version sk (?es ! j)" and "hybrid_time (version_of sk (?es ! j)) \<le> rt"
      using that(2) by (simp_all add: visible_version_def)
    ultimately show False using cmp [of "?es ! j"] by (auto simp: not_le [symmetric])
  qed
  from mem0 obtain i0 where i0: "i0 < length ?es" "?es ! i0 = e0"
    by (auto simp: in_set_conv_nth)
  have le0: "lb \<le> i0" using not_before [of i0] i0 vis0 by simp
  then have lbl: "lb < length ?es" using i0 by simp
  then have valid: "Valid it1" using p1 e1 by (simp add: Valid_def)
  define e1 where "e1 = ?es ! lb"
  have mem: "e1 \<in> set ?es" using lbl by (simp add: e1_def)
  have k1: "key it1 = fst e1" by (simp add: key_def p1 e1 e1_def)
  have v1: "iter_value it1 = snd e1" by (simp add: iter_value_def p1 e1 e1_def)
  have ge: "compare (fst e1) probe \<ge> 0"
    using lower_bound_at [of ?es probe] lbl by (simp add: e1_def lb_def)
  have upto: "compare (fst e1) (fst e0) \<le> 0"
  proof (cases "lb = i0")
    case True
    then have "e1 = e0" using i0 by (simp add: e1_def)
    then show ?thesis by (simp add: compare_eq_0 [THEN iffD2])
  next
    case False
    with le0 have "lb < i0" by simp
    then have "compare (fst e1) (fst e0) < 0"
      using keyspace_sorted_nth [OF sorted, of lb i0] i0 by (simp add: e1_def)
    then show ?thesis by simp
  qed
  have pre1: "starts_with (fst e1) (sk @ [kHybridTime])"
  proof (rule compare_between_prefix)
    show "starts_with probe (sk @ [kHybridTime])"
      unfolding probe_def by (rule starts_with_Append)
    show "starts_with (fst e0) (sk @ [kHybridTime])"
      using vis0 by (intro pre) (simp add: visible_version_def)
    show "compare probe (fst e1) \<le> 0" using ge compare_antisym [of probe "fst e1"] by simp
    show "compare (fst e1) (fst e0) \<le> 0" by (rule upto)
  qed
  define d1 where "d1 = version_of sk e1"
  have isv: "is_version sk e1" and dec1: "dec (fst e1) = Some (p, length sk)"
    and nt: "no_ttl (snd e1)"
    using vers [OF mem pre1] by blast+
  have ver: "fst e1 = AppendDocHybridTime d1 sk" unfolding d1_def by (rule key_of [OF isv])
  have "\<not> compare (fst e1) probe < 0" using ge by simp
  then have "\<not> rt < hybrid_time d1" using cmp [OF isv] by (simp add: d1_def)
  then have le: "hybrid_time d1 \<le> rt" by (simp add: not_less)
  have vis1: "visible_version sk rt e1" using isv le by (simp add: visible_version_def d1_def)
  have sw: "starts_with (key it1) sk" using pre1 k1 starts_with_shorter by simp
  have dfe: "DecodeFromEnd (key it1) = Inr d1" by (simp add: k1 ver)
  have brk: "seek_to_valid_loop max_nexts sk rt probe it = Some (it1, Break)"
    unfolding it1_def
  proof (rule loop_break)
    show "Valid (PerformRocksDBSeek max_nexts it probe)" using valid by (simp add: it1_def)
    show "starts_with (key (PerformRocksDBSeek max_nexts it probe)) sk"
      using sw by (simp add: it1_def)
    show "DecodeFromEnd (key (PerformRocksDBSeek max_nexts it probe)) = Inr d1"
      using dfe by (simp add: it1_def)
    show "hybrid_time d1 \<le> rt" by (rule le)
  qed
  have fd: "FullyDecodeFrom dec (key it1) True
      = Inr \<lparr>path = p, has_hybrid_time = True, doc_ht = d1\<rparr>"
    using ver dec1 k1 FullyDecodeFrom_version [of dec d1 sk p] by simp
  have al: "after_loop dec rt fk0 fv0 it1
      = \<lparr>status = OK, iter = it1,
         found_key = \<lparr>path = p, has_hybrid_time = True, doc_ht = d1\<rparr>,
         is_found = True,
         found_value = \<lparr>type_tag = hd (snd e1), payload = tl (snd e1), ttl = kMaxTtl\<rparr>\<rparr>"
    using nt by (simp add: after_loop_def fd v1 DecodeTTL_no_ttl Value_Decode_no_ttl)
  have res: "SeekToValidKvAtTs dec max_nexts it sk rt fk0 fv0 = Some (after_loop dec rt fk0 fv0 it1)"
    using brk by (simp add: SeekToValidKvAtTs_def probe_def)
  have latest: "\<not> dht_less d1 (version_of sk e')"
    if mem': "e' \<in> set ?es" and v': "visible_version sk rt e'" for e'
  proof -
    from mem' obtain j where j: "j < length ?es" "?es ! j = e'" by (auto simp: in_set_conv_nth)
    have "lb \<le> j" using not_before [of j] j v' by simp
    then consider "j = lb" | "lb < j" by linarith
    then show ?thesis
    proof cases
      case 1
      then have "e' = e1" using j by (simp add: e1_def)
      then show ?thesis by (auto simp: d1_def dht_less_def)
    next
      case 2
      then have "compare (fst e1) (fst e') < 0"
        using keyspace_sorted_nth [OF sorted, of lb j] j by (simp add: e1_def)
      moreover have "fst e' = AppendDocHybridTime (version_of sk e') sk"
        using v' by (intro key_of) (simp add: visible_version_def)
      ultimately have "compare (AppendDocHybridTime d1 sk)
          (AppendDocHybridTime (version_of sk e') sk) < 0" using ver by simp
      then have "dht_less (version_of sk e') d1"
        by (simp only: compare_Append compare_EncodeDocHybridTime)
      then show ?thesis by (rule dht_less_asym)
    qed
  qed
  have "\<exists>e \<in> set ?es. visible_version sk rt e
          \<and> (\<forall>e' \<in> set ?es. visible_version sk rt e'
                \<longrightarrow> \<not> dht_less (version_of sk e) (version_of sk e'))
          \<and> found_key (after_loop dec rt fk0 fv0 it1)
              = \<lparr>path = p, has_hybrid_time = True, doc_ht = version_of sk e\<rparr>
          \<and> Value_Decode (snd e) = Inr (found_value (after_loop dec rt fk0 fv0 it1))"
  proof (intro bexI [of _ e1] conjI ballI impI)
    show "visible_version sk rt e1" by (rule vis1)
    show "found_key (after_loop dec rt fk0 fv0 it1)
        = \<lparr>path = p, has_hybrid_time = True, doc_ht = version_of sk e1\<rparr>"
      by (simp add: al d1_def)
    show "Value_Decode (snd e1) = Inr (found_value (after_loop dec rt fk0 fv0 it1))"
      using nt by (simp add: al Value_Decode_no_ttl)
    show "e1 \<in> set ?es" by (rule mem)
    fix e' assume "e' \<in> set ?es" "visible_version sk rt e'"
    then show "\<not> dht_less (version_of sk e1) (version_of sk e')"
      using latest by (simp add: d1_def)
  qed
  moreover have "status (after_loop dec rt fk0 fv0 it1) = OK" by (simp add: al)
  ultimately show ?thesis using res by simp
qed

text \<open>
  What the function reports when it returns: \<open>is_found\<close> is false exactly when the
  loop has left the iterator exhausted or at a key without the search key as a prefix, and
  then the status is \<open>OK\<close> and the other outputs are as they were.
\<close>

lemma SeekToValidKvAtTs_not_found:
  fixes dec :: "'p path_decoder"
  assumes "SeekToValidKvAtTs dec max_nexts it sk rt fk0 fv0 = Some r"
  shows "entries (iter r) = entries it
       \<and> (is_found r \<longleftrightarrow> Valid (iter r) \<and> starts_with (key (iter r)) sk)
       \<and> (\<not> is_found r \<longrightarrow> status r = OK \<and> found_key r = fk0 \<and> found_value r = fv0)
       \<and> (is_found r \<longrightarrow> \<not> newer_than rt (key (iter r)))"
proof -
  let ?probe = "AppendDocHybridTime \<lparr>hybrid_time = rt, write_id = kMaxWriteId\<rparr> sk"
  from assms obtain it1 x where l: "seek_to_valid_loop max_nexts sk rt ?probe it = Some (it1, x)"
    by (auto simp: SeekToValidKvAtTs_def split: option.splits)
  have ex: "entries it1 = entries it" "exit_state sk rt it1 x"
    using seek_to_valid_loop_exit [OF l] by simp_all
  show ?thesis
  proof (cases x)
    case (ReturnedError e)
    then have "r = \<lparr>status = e, iter = it1, found_key = fk0, is_found = True,
                    found_value = fv0\<rparr>"
      using assms l by (simp add: SeekToValidKvAtTs_def)
    then show ?thesis using ex ReturnedError by (simp add: exit_state_def newer_than_def)
  next
    case ReturnedNotFound
    then have "r = \<lparr>status = OK, iter = it1, found_key = fk0, is_found = False,
                    found_value = fv0\<rparr>"
      using assms l by (simp add: SeekToValidKvAtTs_def)
    then show ?thesis using ex ReturnedNotFound by (simp add: exit_state_def)
  next
    case Break
    then have "r = after_loop dec rt fk0 fv0 it1"
      using assms l by (simp add: SeekToValidKvAtTs_def)
    then show ?thesis using ex Break
      by (auto simp: exit_state_def newer_than_def split: sum.splits)
  qed
qed

text \<open>
  Claim C1, as amended. Take an ordered keyspace in which every key that continues the
  search key with the timestamp marker is a version of it (the search key, the marker and one
  timestamp) that decodes and whose value has no TTL; the other keys, those of descendants
  of the search key among them, are as they may be. Take a flag \<open>max_nexts_to_avoid_seek\<close>
  that is not negative, and an iterator in any state. Then \<open>SeekToValidKvAtTs\<close> returns.
  If some version is at or before the read time, the status is \<open>OK\<close>, \<open>is_found\<close> is
  true, the found key carries the timestamp of a version that is at or before the read time
  and that no other such version exceeds in the order of DocHybridTime, and the found value
  is the decoded stored value of that version. \<open>is_found\<close> is false exactly when the loop
  has left the iterator exhausted or at a key that does not have the search key as a prefix;
  the status is then \<open>OK\<close> and the other outputs are as they were. This is what happens
  when every key under the search key is newer than the read time.
\<close>

theorem SeekToValidKvAtTs_latest_version:
  fixes dec :: "'p path_decoder"
  assumes "keyspace_sorted (entries it)" and "0 \<le> max_nexts"
    and "\<forall>e \<in> set (entries it). starts_with (fst e) (sk @ [kHybridTime]) \<longrightarrow>
           is_version sk e \<and> dec (fst e) = Some (p, length sk) \<and> no_ttl (snd e)"
  shows "\<exists>r. SeekToValidKvAtTs dec max_nexts it sk rt fk0 fv0 = Some r
           \<and> ((\<exists>e \<in> set (entries it). visible_version sk rt e) \<longrightarrow>
                status r = OK \<and> is_found r
                \<and> (\<exists>e \<in> set (entries it). visible_version sk rt e
                      \<and> (\<forall>e' \<in> set (entries it). visible_version sk rt e'
                            \<longrightarrow> \<not> dht_less (version_of sk e) (version_of sk e'))
                      \<and> found_key r = \<lparr>path = p, has_hybrid_time = True,
                                         doc_ht = version_of sk e\<rparr>
                      \<and> Value_Decode (snd e) = Inr (found_value r)))
           \<and> (is_found r \<longleftrightarrow> Valid (iter r) \<and> starts_with (key (iter r)) sk)
           \<and> (\<not> is_found r \<longrightarrow> status r = OK \<and> found_key r = fk0 \<and> found_value r = fv0)
           \<and> ((\<forall>e \<in> set (entries it). starts_with (fst e) sk \<longrightarrow> newer_than rt (fst e))
                \<longrightarrow> \<not> is_found r)"
proof -
  obtain r where res: "SeekToValidKvAtTs dec max_nexts it sk rt fk0 fv0 = Some r"
  proof -
    obtain it1 x where "seek_to_valid_loop max_nexts sk rt
        (AppendDocHybridTime \<lparr>hybrid_time = rt, write_id = kMaxWriteId\<rparr> sk) it = Some (it1, x)"
      using seek_to_valid_loop_returns [OF assms(1,2)] by blast
    then have "\<exists>r. SeekToValidKvAtTs dec max_nexts it sk rt fk0 fv0 = Some r"
      by (cases x) (simp_all add: SeekToValidKvAtTs_def)
    then show ?thesis using that by blast
  qed
  note nf = SeekToValidKvAtTs_not_found [OF res]
  have found: "status r = OK \<and> is_found r
      \<and> (\<exists>e \<in> set (entries it). visible_version sk rt e
            \<and> (\<forall>e' \<in> set (entries it). visible_version sk rt e'
                  \<longrightarrow> \<not> dht_less (version_of sk e) (version_of sk e'))
            \<and> found_key r = \<lparr>path = p, has_hybrid_time = True, doc_ht = version_of sk e\<rparr>
            \<and> Value_Decode (snd e) = Inr (found_value r))"
    if "\<exists>e \<in> set (entries it). visible_version sk rt e"
  proof -
    from that obtain e0 where e0: "e0 \<in> set (entries it)" "visible_version sk rt e0" by blast
    have "\<exists>r. SeekToValidKvAtTs dec max_nexts it sk rt fk0 fv0 = Some r \<and> status r = OK
           \<and> is_found r
           \<and> (\<exists>e \<in> set (entries it). visible_version sk rt e
                 \<and> (\<forall>e' \<in> set (entries it). visible_version sk rt e'
                       \<longrightarrow> \<not> dht_less (version_of sk e) (version_of sk e'))
                 \<and> found_key r = \<lparr>path = p, has_hybrid_time = True,
                                    doc_ht = version_of sk e\<rparr>
                 \<and> Value_Decode (snd e) = Inr (found_value r))"
      using assms(1,2) _ e0
    proof (rule SeekToValidKvAtTs_latest_aux)
      fix e assume "e \<in> set (entries it)" "starts_with (fst e) (sk @ [kHybridTime])"
      then show "is_version sk e \<and> dec (fst e) = Some (p, length sk) \<and> no_ttl (snd e)"
        using assms(3) by blast
    qed
    then show ?thesis using res by auto
  qed
  have none: "\<not> is_found r"
    if all: "\<forall>e \<in> set (entries it). starts_with (fst e) sk \<longrightarrow> newer_than rt (fst e)"
  proof
    assume f: "is_found r"
    then have v: "Valid (iter r)" and sw: "starts_with (key (iter r)) sk"
      and nn: "\<not> newer_than rt (key (iter r))" using nf by blast+
    have "entries (iter r) ! pos (iter r) \<in> set (entries it)"
      using v nf by (metis Valid_def nth_mem)
    then have "newer_than rt (key (iter r))" using all sw by (simp add: key_def)
    with nn show False by simp
  qed
  show ?thesis using res found nf none by blast
qed

text \<open>
  With versions written at times 5, 10 and 20 and an element of the document written at
  time 4: reading at 12 returns the version written at 10, reading at 20 the version written
  at 20. Reading at 3, the first seek lands on the element, which is newer, the second seek
  exhausts the iterator, and nothing is found. Reading at 4, no version is visible, the
  iterator stops at the element, a key under the search key, and the element is what the
  function reports. Without the element, reading at 3 finds nothing.
\<close>

theorem SeekToValidKvAtTs_latest_version_witness:
  "keyspace_sorted (entries (fresh_iterator example_versions_and_child)) \<and> (0::int) \<le> 8
   \<and> list_all (\<lambda>e. starts_with (fst e) ([65] @ [kHybridTime]) = is_version [65] e
                   \<and> (if is_version [65] e
                       then marker_path_decoder (fst e) = Some ([65], 1) \<and> no_ttl (snd e)
                       else starts_with (fst e) [65, 66]))
        example_versions_and_child
   \<and> map_option (\<lambda>r. (status r, is_found r, doc_ht (found_key r), payload (found_value r)))
        (SeekToValidKvAtTs marker_path_decoder 8 (fresh_iterator example_versions_and_child)
           [65] 12 no_key Tombstone)
      = Some (OK, True, \<lparr>hybrid_time = 10, write_id = 0\<rparr>, [2])
   \<and> map_option (\<lambda>r. (status r, is_found r, doc_ht (found_key r), payload (found_value r)))
        (SeekToValidKvAtTs marker_path_decoder 8 (fresh_iterator example_versions_and_child)
           [65] 20 no_key Tombstone)
      = Some (OK, True, \<lparr>hybrid_time = 20, write_id = 0\<rparr>, [3])
   \<and> map_option (\<lambda>r. (status r, is_found r, Valid (iter r), length (calls (iter r))))
        (SeekToValidKvAtTs marker_path_decoder 8 (fresh_iterator example_versions_and_child)
           [65] 3 no_key Tombstone)
      = Some (OK, False, False, 2)
   \<and> map_option (\<lambda>r. (status r, is_found r, path (found_key r), doc_ht (found_key r)))
        (SeekToValidKvAtTs marker_path_decoder 8 (fresh_iterator example_versions_and_child)
           [65] 4 no_key Tombstone)
      = Some (OK, True, [65, 66], \<lparr>hybrid_time = 4, write_id = 0\<rparr>)
   \<and> map_option (\<lambda>r. (status r, is_found r))
        (SeekToValidKvAtTs marker_path_decoder 8 (fresh_iterator example_versions) [65] 3
           no_key Tombstone)
      = Some (OK, False)"
proof -
  let ?it = "fresh_iterator example_versions_and_child"
  have bytes: "example_versions_and_child =
     [([65, 35, 255, 255, 255, 255, 255, 255, 255, 235, 255, 255, 255, 255], [83, 3]),
      ([65, 35, 255, 255, 255, 255, 255, 255, 255, 245, 255, 255, 255, 255], [83, 2]),
      ([65, 35, 255, 255, 255, 255, 255, 255, 255, 250, 255, 255, 255, 255], [83, 1]),
      ([65, 66, 35, 255, 255, 255, 255, 255, 255, 255, 251, 255, 255, 255, 255], [83, 9])]"
    by (simp add: example_versions_and_child_def example_versions_bytes codec_eval)
  have h1: "keyspace_sorted (entries ?it)"
    by (simp add: fresh_iterator_def bytes keyspace_sorted_def)
  have h2: "(0::int) \<le> 8" by simp
  have h3: "list_all (\<lambda>e. starts_with (fst e) ([65] @ [kHybridTime]) = is_version [65] e
                   \<and> (if is_version [65] e
                       then marker_path_decoder (fst e) = Some ([65], 1) \<and> no_ttl (snd e)
                       else starts_with (fst e) [65, 66]))
        example_versions_and_child"
    by (simp add: bytes starts_with_def is_version_def version_of_def DecodeDocHybridTime_def
        codec_eval marker_path_decoder_def no_ttl_def kTtl_def)
  have es: "entries ?it = example_versions_and_child"
    and len: "length [65 :: byte] = 1" by (simp_all add: fresh_iterator_def)
  have h3': "\<forall>e \<in> set (entries ?it). starts_with (fst e) ([65] @ [kHybridTime]) \<longrightarrow>
        is_version [65] e
        \<and> marker_path_decoder (fst e) = Some ([65], length [65 :: byte]) \<and> no_ttl (snd e)"
    unfolding es len using h3 [unfolded list_all_iff] by meson
  have ev: "map_option (\<lambda>r. (status r, is_found r, doc_ht (found_key r), payload (found_value r)))
        (SeekToValidKvAtTs marker_path_decoder 8 ?it [65] 12 no_key Tombstone)
      = Some (OK, True, \<lparr>hybrid_time = 10, write_id = 0\<rparr>, [2])"
    "map_option (\<lambda>r. (status r, is_found r, doc_ht (found_key r), payload (found_value r)))
        (SeekToValidKvAtTs marker_path_decoder 8 ?it [65] 20 no_key Tombstone)
      = Some (OK, True, \<lparr>hybrid_time = 20, write_id = 0\<rparr>, [3])"
    "map_option (\<lambda>r. (status r, is_found r, Valid (iter r), length (calls (iter r))))
        (SeekToValidKvAtTs marker_path_decoder 8 ?it [65] 3 no_key Tombstone)
      = Some (OK, False, False, 2)"
    "map_option (\<lambda>r. (status r, is_found r, path (found_key r), doc_ht (found_key r)))
        (SeekToValidKvAtTs marker_path_decoder 8 ?it [65] 4 no_key Tombstone)
      = Some (OK, True, [65, 66], \<lparr>hybrid_time = 4, write_id = 0\<rparr>)"
    "map_option (\<lambda>r. (status r, is_found r))
        (SeekToValidKvAtTs marker_path_decoder 8 (fresh_iterator example_versions) [65] 3
           no_key Tombstone)
      = Some (OK, False)"
    by (simp_all add: docdb_eval bytes example_versions_bytes marker_path_decoder_def
        seek_loop.simps Next_def)
  note general = SeekToValidKvAtTs_latest_version [OF h1 h2 h3', of 12 no_key Tombstone]
  show ?thesis using general h1 h2 h3 ev by blast
qed

text \<open>
  The claim as stated, for every keyspace of versions whatever the flag, fails when the flag
  is negative. Over the three versions written at 20, 10 and 5, with the iterator at the
  first of them and the flag at \<open>-1\<close>, reading at 12 does not return: the iterator is
  before the seek key, \<open>PerformRocksDBSeek\<close> neither steps nor seeks, the version at 20 is
  too new, and the rewritten seek key is the one the loop started with. With the default
  flag the same call returns the version written at 10.
\<close>

theorem SeekToValidKvAtTs_latest_version_counterexample:
  "SeekToValidKvAtTs example_path_decoder (-1) (positioned_iterator example_versions 0) [65]
     12 no_key Tombstone = None
   \<and> SeekToValidKvAtTs example_path_decoder default_max_nexts_to_avoid_seek
       (positioned_iterator example_versions 0) [65] 12 no_key Tombstone
     = Some \<lparr>status = OK,
              iter = \<lparr>entries = example_versions, pos = 1, calls = [CallNext]\<rparr>,
              found_key = \<lparr>path = [65], has_hybrid_time = True,
                           doc_ht = \<lparr>hybrid_time = 10, write_id = 0\<rparr>\<rparr>,
              is_found = True,
              found_value = \<lparr>type_tag = 83, payload = [2], ttl = kMaxTtl\<rparr>\<rparr>"
proof -
  let ?probe = "AppendDocHybridTime \<lparr>hybrid_time = 12, write_id = kMaxWriteId\<rparr> [65]"
  let ?it = "positioned_iterator example_versions 0"
  have stay: "PerformRocksDBSeek (-1) ?it ?probe = ?it"
    by (simp add: positioned_iterator_def iter_eval codec_eval example_versions_bytes
        seek_loop.simps)
  have v: "Valid ?it" and sw: "starts_with (key ?it) [65]"
    by (simp_all add: positioned_iterator_def iter_eval example_versions_bytes)
  have d: "DecodeFromEnd (key ?it) = Inr \<lparr>hybrid_time = 20, write_id = 0\<rparr>"
    by (simp add: positioned_iterator_def key_def example_versions_def)
  have newer: "(12 :: HybridTime) < hybrid_time \<lparr>hybrid_time = 20, write_id = 0\<rparr>" by simp
  have r: "ReplaceLastHybridTimeForSeek 12 (key ?it) = Inr ?probe"
    by (simp add: positioned_iterator_def key_def example_versions_bytes
        ReplaceLastHybridTimeForSeek_def kBytesPerDocHybridTime_def codec_eval)
  have "seek_to_valid_loop (-1) [65] 12 ?probe ?it = None"
    using stay v sw d newer r by (rule seek_to_valid_loop_stuck)
  then have "SeekToValidKvAtTs example_path_decoder (-1) ?it [65] 12 no_key Tombstone = None"
    by (simp add: SeekToValidKvAtTs_def)
  moreover have "SeekToValidKvAtTs example_path_decoder default_max_nexts_to_avoid_seek ?it
       [65] 12 no_key Tombstone
     = Some \<lparr>status = OK,
              iter = \<lparr>entries = example_versions, pos = 1, calls = [CallNext]\<rparr>,
              found_key = \<lparr>path = [65], has_hybrid_time = True,
                           doc_ht = \<lparr>hybrid_time = 10, write_id = 0\<rparr>\<rparr>,
              is_found = True,
              found_value = \<lparr>type_tag = 83, payload = [2], ttl = kMaxTtl\<rparr>\<rparr>"
    by (simp add: docdb_eval positioned_iterator_def example_versions_bytes
        example_path_decoder_def Next_def seek_loop.simps default_max_nexts_to_avoid_seek_def)
  ultimately show ?thesis by simp
qed

text \<open>
  Claim C2. Suppose the loop of \<open>SeekToValidKvAtTs\<close> has found a key, the key decodes,
  and the stored value carries a TTL (its TTL field decodes to a value other than
  \<open>kMaxTtl\<close>). The expiry instant is the write time of the found key plus the TTL. If
  the read time is strictly past the expiry instant, the function returns \<open>OK\<close> with a
  tombstone as the found value and with the expiry instant as the time of the found key, in
  place of the write time. If the read time is at or before the expiry instant, the found
  key is the stored key, write time included, and the found value is the stored payload as it
  decodes.
\<close>

theorem SeekToValidKvAtTs_ttl_expiry:
  fixes dec :: "'p path_decoder"
  assumes "seek_to_valid_loop max_nexts sk rt
             (AppendDocHybridTime \<lparr>hybrid_time = rt, write_id = kMaxWriteId\<rparr> sk) it
           = Some (it1, Break)"
    and "FullyDecodeFrom dec (key it1) True = Inr fk"
    and "DecodeTTL (iter_value it1) = Inr (t, rest)"
    and "t \<noteq> kMaxTtl"
  shows "\<exists>r. SeekToValidKvAtTs dec max_nexts it sk rt fk0 fv0 = Some r \<and> is_found r
           \<and> iter r = it1
           \<and> (if rt > AddPhysicalTimeToHybridTime (hybrid_time (doc_ht fk)) t
               then status r = OK \<and> found_value r = Tombstone
                    \<and> hybrid_time (doc_ht (found_key r))
                        = AddPhysicalTimeToHybridTime (hybrid_time (doc_ht fk)) t
                    \<and> path (found_key r) = path fk
               else found_key r = fk
                    \<and> (case Value_Decode rest of
                          Inr v \<Rightarrow> status r = OK \<and> found_value r = v
                        | Inl e \<Rightarrow> status r = e))"
  using assms
  by (auto simp: SeekToValidKvAtTs_def after_loop_def SetHybridTimeForReadPath_def
      split: sum.splits)

text \<open>
  A value written at time 100 with a TTL of 50 expires at 150: read at 150 it is returned as
  stored, with time 100; read at 151 it is a tombstone with time 150.
\<close>

theorem SeekToValidKvAtTs_ttl_expiry_witness:
  "AddPhysicalTimeToHybridTime 100 50 = 150
   \<and> map_option (\<lambda>r. (status r, is_found r, hybrid_time (doc_ht (found_key r)), found_value r))
        (SeekToValidKvAtTs example_path_decoder 8 (fresh_iterator example_ttl_value) [65] 150
           no_key Tombstone)
      = Some (OK, True, 100, \<lparr>type_tag = 83, payload = [7], ttl = kMaxTtl\<rparr>)
   \<and> map_option (\<lambda>r. (status r, is_found r, hybrid_time (doc_ht (found_key r)), found_value r))
        (SeekToValidKvAtTs example_path_decoder 8 (fresh_iterator example_ttl_value) [65] 151
           no_key Tombstone)
      = Some (OK, True, 150, Tombstone)"
proof -
  let ?it = "fresh_iterator example_ttl_value"
  let ?it1 = "\<lparr>entries = example_ttl_value, pos = 0,
               calls = [CallSeek (AppendDocHybridTime \<lparr>hybrid_time = 151, write_id = kMaxWriteId\<rparr> [65])]\<rparr>"
  let ?fk = "\<lparr>path = [65], has_hybrid_time = True,
              doc_ht = \<lparr>hybrid_time = 100, write_id = 0\<rparr>\<rparr> :: slice SubDocKey"
  have h1: "seek_to_valid_loop 8 [65] 151
             (AppendDocHybridTime \<lparr>hybrid_time = 151, write_id = kMaxWriteId\<rparr> [65]) ?it
           = Some (?it1, Break)"
    by (simp add: docdb_eval example_ttl_value_def)
  have h2: "FullyDecodeFrom example_path_decoder (key ?it1) True = Inr ?fk"
    by (simp add: docdb_eval example_ttl_value_def example_path_decoder_def)
  have h3: "DecodeTTL (iter_value ?it1) = Inr (50, [83, 7])"
    by (simp add: docdb_eval example_ttl_value_def)
  have h4: "(50 :: MonoDelta) \<noteq> kMaxTtl" by (simp add: kMaxTtl_def)
  note general = SeekToValidKvAtTs_ttl_expiry [OF h1 h2 h3 h4, of no_key Tombstone]
  show ?thesis using general
    by (simp add: docdb_eval example_ttl_value_def example_path_decoder_def
        AddPhysicalTimeToHybridTime_def SetHybridTimeForReadPath_def Tombstone_def)
qed


section \<open>The debug-only validation of seek keys\<close>

lemma FullyDecodeFrom_trailing:
  assumes "FullyDecodeFrom dec k req = Inr sdk" and "has_hybrid_time sdk"
  shows "DecodeFromEnd k = Inr (doc_ht sdk)"
proof -
  from assms obtain p n rest where d: "dec k = Some (p, n)"
    and r: "drop n k = kHybridTime # rest" and l: "length rest = 12"
    and s: "doc_ht sdk = DecodeDocHybridTime rest"
    by (auto simp: FullyDecodeFrom_def kBytesPerDocHybridTime_def
        split: option.splits list.splits if_splits)
  from r l have len: "length k - n = 13" using length_drop [of n k] by simp
  then have n: "n = length k - 13" "13 \<le> length k" by simp_all
  have "length k - 12 = 1 + n" using n by simp
  then have "drop (length k - 12) k = drop 1 (drop n k)" by (simp only: drop_drop)
  then have "drop (length k - 12) k = rest" using r by simp
  then show ?thesis using n s by (simp add: DecodeFromEnd_def kBytesPerDocHybridTime_def)
qed

text \<open>
  Claim C9. When the seek key fully decodes as a SubDocKey that carries a DocHybridTime,
  and that timestamp is neither \<open>kMin\<close> nor has the write id \<open>kMaxWriteId\<close>, the
  debug build's assertion fires. Whatever the build and the seek key, when
  \<open>PerformRocksDBSeek\<close> goes on to seek, it seeks with the seek key it was given and
  leaves the iterator exactly where the function without the validation leaves it: the
  validation corrects nothing. The optimized build performs no check: it always goes on to
  seek.
\<close>

theorem seek_key_validation:
  fixes dec :: "'p path_decoder"
  shows "(FullyDecodeFrom dec seek_key False = Inr sdk \<and> has_hybrid_time sdk
            \<and> doc_ht sdk \<noteq> kMin \<and> write_id (doc_ht sdk) \<noteq> kMaxWriteId
          \<longrightarrow> PerformRocksDBSeek_build Debug dec max_nexts it seek_key = Inl DCheckFailure)
       \<and> (\<forall>b it'. PerformRocksDBSeek_build b dec max_nexts it seek_key = Inr it'
            \<longrightarrow> it' = PerformRocksDBSeek max_nexts it seek_key)
       \<and> PerformRocksDBSeek_build Optimized dec max_nexts it seek_key
            = Inr (PerformRocksDBSeek max_nexts it seek_key)"
proof (intro conjI impI allI)
  assume a: "FullyDecodeFrom dec seek_key False = Inr sdk \<and> has_hybrid_time sdk
            \<and> doc_ht sdk \<noteq> kMin \<and> write_id (doc_ht sdk) \<noteq> kMaxWriteId"
  then have "DecodeFromEnd seek_key = Inr (doc_ht sdk)"
    by (intro FullyDecodeFrom_trailing) auto
  then have "\<not> seek_key_dcheck dec seek_key"
    using a by (simp add: seek_key_dcheck_def DecodeHybridTimeFromEndOfKey_def)
  then show "PerformRocksDBSeek_build Debug dec max_nexts it seek_key = Inl DCheckFailure"
    by (simp add: PerformRocksDBSeek_build_def)
next
  fix b it'
  assume "PerformRocksDBSeek_build b dec max_nexts it seek_key = Inr it'"
  then show "it' = PerformRocksDBSeek max_nexts it seek_key"
    by (cases b) (auto simp: PerformRocksDBSeek_build_def split: if_splits)
next
  show "PerformRocksDBSeek_build Optimized dec max_nexts it seek_key
            = Inr (PerformRocksDBSeek max_nexts it seek_key)"
    by (simp add: PerformRocksDBSeek_build_def)
qed

text \<open>
  A seek key that ends in time 10 with write id 0 is flagged by the debug build and accepted
  by the optimized build; with the maximum write id the debug build accepts it as well.
\<close>

theorem seek_key_validation_witness:
  "FullyDecodeFrom example_path_decoder
       (AppendDocHybridTime \<lparr>hybrid_time = 10, write_id = 0\<rparr> [65]) False
     = Inr \<lparr>path = [65], has_hybrid_time = True, doc_ht = \<lparr>hybrid_time = 10, write_id = 0\<rparr>\<rparr>
   \<and> PerformRocksDBSeek_build Debug example_path_decoder 8 (example_iterator 0)
       (AppendDocHybridTime \<lparr>hybrid_time = 10, write_id = 0\<rparr> [65]) = Inl DCheckFailure
   \<and> PerformRocksDBSeek_build Optimized example_path_decoder 8 (example_iterator 0)
       (AppendDocHybridTime \<lparr>hybrid_time = 10, write_id = 0\<rparr> [65])
     = Inr (PerformRocksDBSeek 8 (example_iterator 0)
         (AppendDocHybridTime \<lparr>hybrid_time = 10, write_id = 0\<rparr> [65]))
   \<and> PerformRocksDBSeek_build Debug example_path_decoder 8 (example_iterator 0)
       (AppendDocHybridTime \<lparr>hybrid_time = 10, write_id = kMaxWriteId\<rparr> [65])
     = Inr (PerformRocksDBSeek 8 (example_iterator 0)
         (AppendDocHybridTime \<lparr>hybrid_time = 10, write_id = kMaxWriteId\<rparr> [65]))"
proof -
  let ?k = "AppendDocHybridTime \<lparr>hybrid_time = 10, write_id = 0\<rparr> [65]"
  let ?sdk = "\<lparr>path = [65], has_hybrid_time = True,
               doc_ht = \<lparr>hybrid_time = 10, write_id = 0\<rparr>\<rparr> :: slice SubDocKey"
  have h: "FullyDecodeFrom example_path_decoder ?k False = Inr ?sdk \<and> has_hybrid_time ?sdk
            \<and> doc_ht ?sdk \<noteq> kMin \<and> write_id (doc_ht ?sdk) \<noteq> kMaxWriteId"
    by (simp add: FullyDecodeFrom_def example_path_decoder_def AppendDocHybridTime_def
        kBytesPerDocHybridTime_def kMin_def kMaxWriteId_def)
  note general = seek_key_validation [of example_path_decoder ?k ?sdk 8 "example_iterator 0"]
  have dbg: "PerformRocksDBSeek_build Debug example_path_decoder 8 (example_iterator 0) ?k
      = Inl DCheckFailure"
    using general h by blast
  have ok: "seek_key_dcheck example_path_decoder
      (AppendDocHybridTime \<lparr>hybrid_time = 10, write_id = kMaxWriteId\<rparr> [65])"
    by (simp add: seek_key_dcheck_def DecodeHybridTimeFromEndOfKey_def)
  show ?thesis using h dbg ok by (simp add: PerformRocksDBSeek_build_def)
qed


section \<open>PlainBlockDecoder: SeekAtOrAfterValue\<close>

lemma mid_unat:
  fixes l r :: "32 word"
  assumes "unat l + unat r < 2 ^ 32"
  shows "unat ((l + r) div 2) = (unat l + unat r) div 2"
proof -
  have "unat (l + r) = unat l + unat r"
    using assms by (simp add: unat_add_lem [THEN iffD1])
  then show ?thesis by (simp add: unat_div)
qed

lemma succ_unat:
  fixes m r :: "32 word"
  assumes "unat m < unat r"
  shows "unat (m + 1) = unat m + 1"
proof -
  have "unat r < 2 ^ 32" using unsigned_less [of r] by simp
  then have "unat m + unat (1 :: 32 word) < 2 ^ LENGTH(32)" using assms by simp
  then have "unat (m + 1) = unat m + unat (1 :: 32 word)" by (simp only: unat_add_lem [THEN iffD1])
  then show ?thesis by simp
qed

text \<open>
  The loop on a sorted block of at most \<open>2 ^ 31\<close> elements, started with everything before
  \<open>l\<close> below the target and everything from \<open>r\<close> on above it: it returns, either with an
  index that holds the target, or with the index that separates the elements below the
  target from those above it.
\<close>

lemma search_loop_correct:
  fixes data :: "'a::linorder list"
  assumes "sorted data" and "length data \<le> 2 ^ 31"
    and "unat l \<le> unat r" and "unat r \<le> length data"
    and "\<And>j. j < unat l \<Longrightarrow> data ! j < target"
    and "\<And>j. unat r \<le> j \<Longrightarrow> j < length data \<Longrightarrow> target < data ! j"
  shows "\<exists>i e. search_loop data target l r = Some (Inr (i, e)) \<and> unat i \<le> length data
           \<and> (if e then unat i < length data \<and> data ! unat i = target
               else (\<forall>j < unat i. data ! j < target)
                    \<and> (\<forall>j. unat i \<le> j \<and> j < length data \<longrightarrow> target < data ! j))"
  using assms(3-6)
proof (induction "unat r - unat l" arbitrary: l r rule: less_induct)
  case less
  show ?case
  proof (cases "l = r")
    case True
    then show ?thesis using less.prems
      by (subst search_loop.simps) auto
  next
    case False
    then have lt: "unat l < unat r" using less.prems(1) by (simp add: word_unat_eq_iff)
    have sum: "unat l + unat r < 2 ^ 32" using lt less.prems(2) assms(2) by simp
    define mid where "mid = (l + r) div 2"
    have m: "unat mid = (unat l + unat r) div 2" unfolding mid_def using sum by (rule mid_unat)
    have ml: "unat l \<le> unat mid" and mr: "unat mid < unat r" using lt m by auto
    have inb: "unat mid < length data" using mr less.prems(2) by simp
    consider (lo) "data ! unat mid < target" | (hi) "target < data ! unat mid"
      | (eq) "data ! unat mid = target" by fastforce
    then show ?thesis
    proof cases
      case lo
      have m1: "unat (mid + 1) = unat mid + 1" using mr by (rule succ_unat)
      have "\<exists>i e. search_loop data target (mid + 1) r = Some (Inr (i, e)) \<and> unat i \<le> length data
           \<and> (if e then unat i < length data \<and> data ! unat i = target
               else (\<forall>j < unat i. data ! j < target)
                    \<and> (\<forall>j. unat i \<le> j \<and> j < length data \<longrightarrow> target < data ! j))"
      proof (rule less.hyps)
        show "unat r - unat (mid + 1) < unat r - unat l" using m1 ml mr by simp
        show "unat (mid + 1) \<le> unat r" using m1 mr by simp
        show "unat r \<le> length data" by (rule less.prems)
        show "\<And>j. unat r \<le> j \<Longrightarrow> j < length data \<Longrightarrow> target < data ! j" by (rule less.prems)
        fix j assume "j < unat (mid + 1)"
        then have "j \<le> unat mid" using m1 by simp
        then have "data ! j \<le> data ! unat mid"
          using assms(1) inb by (simp add: sorted_iff_nth_mono)
        then show "data ! j < target" using lo by simp
      qed
      moreover have "search_loop data target l r = search_loop data target (mid + 1) r"
        using False inb lo by (subst search_loop.simps) (simp add: mid_def Let_def)
      ultimately show ?thesis by simp
    next
      case hi
      have "\<exists>i e. search_loop data target l mid = Some (Inr (i, e)) \<and> unat i \<le> length data
           \<and> (if e then unat i < length data \<and> data ! unat i = target
               else (\<forall>j < unat i. data ! j < target)
                    \<and> (\<forall>j. unat i \<le> j \<and> j < length data \<longrightarrow> target < data ! j))"
      proof (rule less.hyps)
        show "unat mid - unat l < unat r - unat l" using ml mr by simp
        show "unat l \<le> unat mid" by (rule ml)
        show "unat mid \<le> length data" using inb by simp
        show "\<And>j. j < unat l \<Longrightarrow> data ! j < target" by (rule less.prems)
        fix j assume "unat mid \<le> j" "j < length data"
        then have "data ! unat mid \<le> data ! j"
          using assms(1) by (simp add: sorted_iff_nth_mono)
        then show "target < data ! j" using hi by simp
      qed
      moreover have "search_loop data target l r = search_loop data target l mid"
        using False inb hi by (subst search_loop.simps) (auto simp: mid_def Let_def)
      ultimately show ?thesis by simp
    next
      case eq
      have "search_loop data target l r = Some (Inr (mid, True))"
        using False inb eq by (subst search_loop.simps) (simp add: mid_def Let_def)
      then show ?thesis using inb eq by (intro exI [of _ mid] exI [of _ True]) simp
    qed
  qed
qed

text \<open>
  Claim C8, as amended. On a parsed block whose elements are in ascending order and number
  at most \<open>2 ^ 31\<close>, \<open>SeekAtOrAfterValue\<close> returns; its status is \<open>NotFound\<close> exactly when
  every stored element is strictly less than the target, and then the decoder is positioned
  at \<open>num_elems\<close>; otherwise the status is \<open>OK\<close> and the decoder is positioned at an index
  whose element is at or after the target. \<open>exact_match\<close> is true exactly when an element
  equal to the target is present. On an exact match the index holds the target itself;
  without one it is the smallest index whose element is greater than the target; and when
  the elements are strictly increasing it is in both cases the smallest index whose element
  is greater than or equal to the target.
\<close>

theorem SeekAtOrAfterValue_sorted_block:
  fixes d :: "'a::linorder PlainBlockDecoder"
  assumes "sorted (elems d)" and "unat (num_elems d) = length (elems d)"
    and "length (elems d) \<le> 2 ^ 31"
  shows "\<exists>st idx exact. SeekAtOrAfterValue d target = Some (Inr (st, d\<lparr>cur_idx := idx\<rparr>, exact))
       \<and> (st = NotFound \<longleftrightarrow> list_all (\<lambda>x. x < target) (elems d))
       \<and> (st = NotFound \<or> st = OK)
       \<and> (st = NotFound \<longrightarrow> idx = num_elems d)
       \<and> (exact \<longleftrightarrow> target \<in> set (elems d))
       \<and> (st = OK \<longrightarrow> unat idx < length (elems d) \<and> target \<le> elems d ! unat idx
            \<and> (if exact then elems d ! unat idx = target
                else \<forall>j < unat idx. elems d ! j < target)
            \<and> (sorted_wrt (<) (elems d) \<longrightarrow> (\<forall>j < unat idx. elems d ! j < target)))"
proof -
  let ?xs = "elems d"
  obtain i e where r: "search_loop ?xs target 0 (num_elems d) = Some (Inr (i, e))"
    and ib: "unat i \<le> length ?xs"
    and post: "if e then unat i < length ?xs \<and> ?xs ! unat i = target
               else (\<forall>j < unat i. ?xs ! j < target)
                    \<and> (\<forall>j. unat i \<le> j \<and> j < length ?xs \<longrightarrow> target < ?xs ! j)"
    using search_loop_correct [OF assms(1) assms(3), of 0 "num_elems d" target] assms(2)
    by auto
  have present: "e \<longleftrightarrow> target \<in> set ?xs"
  proof
    assume e
    then show "target \<in> set ?xs" using post by (auto simp: in_set_conv_nth)
  next
    assume "target \<in> set ?xs"
    then obtain j where j: "j < length ?xs" "?xs ! j = target" by (auto simp: in_set_conv_nth)
    show e
    proof (rule ccontr)
      assume "\<not> e"
      then have "(\<forall>j < unat i. ?xs ! j < target)
                    \<and> (\<forall>j. unat i \<le> j \<and> j < length ?xs \<longrightarrow> target < ?xs ! j)"
        using post by simp
      then have lo: "\<And>k. k < unat i \<Longrightarrow> ?xs ! k < target"
        and hi: "\<And>k. unat i \<le> k \<Longrightarrow> k < length ?xs \<Longrightarrow> target < ?xs ! k" by auto
      show False
      proof (cases "j < unat i")
        case True
        then show False using lo [of j] j by simp
      next
        case False
        then show False using hi [of j] j by simp
      qed
    qed
  qed
  have idx_eq: "i = num_elems d \<longleftrightarrow> unat i = length ?xs"
    using assms(2) by (auto simp: word_unat_eq_iff)
  have nf: "(\<not> e \<and> i = num_elems d) \<longleftrightarrow> list_all (\<lambda>x. x < target) ?xs"
  proof
    assume "\<not> e \<and> i = num_elems d"
    then show "list_all (\<lambda>x. x < target) ?xs"
      using post idx_eq by (auto simp: list_all_length)
  next
    assume a: "list_all (\<lambda>x. x < target) ?xs"
    then have ne: "\<not> e" using present by (auto simp: list_all_iff)
    have "\<not> unat i < length ?xs"
    proof
      assume "unat i < length ?xs"
      then have "target < ?xs ! unat i" using post ne by auto
      moreover have "?xs ! unat i < target"
        using a \<open>unat i < length ?xs\<close> by (simp add: list_all_length)
      ultimately show False by simp
    qed
    then show "\<not> e \<and> i = num_elems d" using ne ib idx_eq by simp
  qed
  have strict: "\<forall>j < unat i. ?xs ! j < target"
    if s: "sorted_wrt (<) ?xs" and ok: "unat i < length ?xs"
  proof (cases e)
    case True
    then have "?xs ! unat i = target" using post by simp
    then show ?thesis using s ok by (auto simp: sorted_wrt_iff_nth_less)
  next
    case False
    then show ?thesis using post by simp
  qed
  show ?thesis
  proof (cases e)
    case True
    then have "SeekAtOrAfterValue d target = Some (Inr (OK, d\<lparr>cur_idx := i\<rparr>, True))"
      using r by (simp add: SeekAtOrAfterValue_def)
    moreover have "\<not> list_all (\<lambda>x. x < target) ?xs" using nf True by simp
    ultimately show ?thesis using True present post strict
      by (intro exI [of _ OK] exI [of _ i] exI [of _ True]) auto
  next
    case False
    show ?thesis
    proof (cases "i = num_elems d")
      case True
      then have "SeekAtOrAfterValue d target = Some (Inr (NotFound, d\<lparr>cur_idx := i\<rparr>, False))"
        using r False by (simp add: SeekAtOrAfterValue_def)
      moreover have "list_all (\<lambda>x. x < target) ?xs" using nf True False by simp
      ultimately show ?thesis using False present True
        by (intro exI [of _ NotFound] exI [of _ i] exI [of _ False]) auto
    next
      case ne: False
      then have "SeekAtOrAfterValue d target = Some (Inr (OK, d\<lparr>cur_idx := i\<rparr>, False))"
        using r False by (simp add: SeekAtOrAfterValue_def)
      moreover have "\<not> list_all (\<lambda>x. x < target) ?xs" using nf ne by simp
      moreover have "unat i < length ?xs" using ne ib idx_eq by simp
      ultimately show ?thesis using False present post
        by (intro exI [of _ OK] exI [of _ i] exI [of _ False]) auto
    qed
  qed
qed

text \<open>
  On the block \<open>1, 3, 5, 7\<close>: a target beyond the last element is not found, a target
  between two elements positions the decoder at the next greater one, a stored target is an
  exact match.
\<close>

theorem SeekAtOrAfterValue_sorted_block_witness:
  "sorted (elems example_block) \<and> unat (num_elems example_block) = length (elems example_block)
   \<and> length (elems example_block) \<le> 2 ^ 31
   \<and> SeekAtOrAfterValue example_block 8
       = Some (Inr (NotFound, example_block\<lparr>cur_idx := 4\<rparr>, False))
   \<and> SeekAtOrAfterValue example_block 4 = Some (Inr (OK, example_block\<lparr>cur_idx := 2\<rparr>, False))
   \<and> SeekAtOrAfterValue example_block 5 = Some (Inr (OK, example_block\<lparr>cur_idx := 2\<rparr>, True))"
proof -
  have h1: "sorted (elems example_block)" by (simp add: example_block_def)
  have h2: "unat (num_elems example_block) = length (elems example_block)"
    by (simp add: example_block_def)
  have h3: "length (elems example_block) \<le> 2 ^ 31" by (simp add: example_block_def)
  note general = SeekAtOrAfterValue_sorted_block [OF h1 h2 h3, of 8]
  show ?thesis using general h1 h2 h3
    by (simp add: example_block_def SeekAtOrAfterValue_def search_loop.simps)
qed

text \<open>
  The claim as stated fails on a sorted block that holds the target more than once: the
  search stops at the first element it probes that equals the target, here index 1, while
  the smallest index whose element is at or after the target is 0.
\<close>

theorem SeekAtOrAfterValue_duplicates_counterexample:
  "sorted (elems example_block_duplicates)
   \<and> SeekAtOrAfterValue example_block_duplicates 5
       = Some (Inr (OK, example_block_duplicates\<lparr>cur_idx := 1\<rparr>, True))
   \<and> 5 \<le> elems example_block_duplicates ! 0"
  by (simp add: example_block_duplicates_def SeekAtOrAfterValue_def search_loop.simps)

end
